theory Spec2Isabelle
  imports Main "HOL-Library.Word" "HOL-Library.Multiset"
begin

unbundle bit_operations_syntax

section \<open>Data model of csim.c\<close>

text \<open>
  The simulator is compiled for an LP64 target: \<open>mem_addr\<close> (\<open>unsigned long\<close>) has 64 bits,
  \<open>int\<close> and \<open>unsigned int\<close> have 32 bits. A C \<open>int\<close> is a 32-bit word read with \<open>sint\<close>,
  an \<open>unsigned int\<close> a 32-bit word read with \<open>unat\<close>. A conversion between the two keeps
  the bit pattern, and a conversion of a 64-bit value to \<open>int\<close> keeps the low 32 bits.
  The three counters are C \<open>int\<close>s; their increments are modelled with two's complement
  wrap-around.
\<close>

type_synonym mem_addr = "64 word"
type_synonym c_int = "32 word"
type_synonym c_uint = "32 word"

text \<open>\<open>struct Line\<close>: all three fields are \<open>unsigned int\<close>.\<close>

record Line =
  valid :: c_uint
  tag :: c_uint
  lru :: c_uint

text \<open>
  \<open>struct Set\<close> holds one pointer to an array of lines; the array is a list whose length
  is the number of lines that were allocated. The cache is the array of sets.
\<close>

type_synonym Lines = "Line list"
type_synonym Cache = "Lines list"

text \<open>
  Which of \<open>hit\<close>, \<open>miss\<close> and \<open>eviction\<close> handles an access. The handlers print it in
  verbose mode (\<open>hit\<close>, \<open>miss\<close>, \<open>miss eviction\<close>).
\<close>

datatype outcome = HIT | MISS_FILL | MISS_EVICT

text \<open>
  What the simulator writes on standard output while it reads the trace: one line per
  access in verbose mode (operation letter, address, size and outcome stand for the
  formatted text), and the line \<open>Error\<close> for an operation it does not know.
\<close>

datatype printed = Access_line char mem_addr c_int outcome | Error_line

text \<open>
  The local variables of \<open>simulateCache\<close> that the handlers change through pointers,
  the cache, and the text printed so far.
\<close>

record sim =
  cache :: Cache
  hit_count :: c_int
  miss_count :: c_int
  eviction_count :: c_int
  stdout :: "printed list"

text \<open>
  One record of the trace file as \<open>fscanf(fp, "%s %lx,%d", operation, &address, &size)\<close>
  reads it: the operation token, the address and the size.
\<close>

record event =
  operation :: string
  address :: mem_addr
  size :: c_int

section \<open>Address decomposition\<close>

text \<open>
  \<open>(int)log2(x)\<close> for an \<open>int\<close> argument. For a positive argument the double-precision
  logarithm truncates to the position of the highest set bit; for an argument that is
  zero or negative \<open>log2\<close> gives minus infinity or NaN, and the conversion to \<open>int\<close> is
  undefined.
\<close>

fun floor_log2 :: "nat \<Rightarrow> nat" where
  "floor_log2 n = (if n < 2 then 0 else Suc (floor_log2 (n div 2)))"

declare floor_log2.simps [simp del]

definition int_log2 :: "c_int \<Rightarrow> int option" where
  "int_log2 x = (if sint x \<le> 0 then None else Some (int (floor_log2 (nat (sint x)))))"

text \<open>
  Shifts of an \<open>unsigned long\<close>. A shift count that is negative or not smaller than the
  width of the type is undefined in C.
\<close>

definition shift_left :: "mem_addr \<Rightarrow> int \<Rightarrow> mem_addr option" where
  "shift_left x k = (if 0 \<le> k \<and> k < 64 then Some (push_bit (nat k) x) else None)"

definition shift_right :: "mem_addr \<Rightarrow> int \<Rightarrow> mem_addr option" where
  "shift_right x k = (if 0 \<le> k \<and> k < 64 then Some (drop_bit (nat k) x) else None)"

text \<open>
  The two assignments at the head of the loop body of \<open>simulateCache\<close>:
  \<^verbatim>\<open>tag = address >> ((int)log2(block_size) + (int)log2(num_sets));\<close>
  \<^verbatim>\<open>set = (address << (64 - ((int)log2(block_size) + (int)log2(num_sets))))
          >> (64 - (int)log2(num_sets));\<close>
  \<open>tag_expr\<close> and \<open>set_expr\<close> are the values of the two right-hand sides, which are
  \<open>unsigned long\<close>. Both variables are \<open>int\<close>, so each assignment keeps the low 32
  bits. \<open>decode\<close> gives the pair \<open>(tag, set)\<close>. \<open>None\<close> stands for undefined behaviour.
\<close>

definition tag_expr :: "c_int \<Rightarrow> c_int \<Rightarrow> mem_addr \<Rightarrow> mem_addr option" where
  "tag_expr num_sets block_size addr =
     (case int_log2 block_size of None \<Rightarrow> None | Some b \<Rightarrow>
      case int_log2 num_sets of None \<Rightarrow> None | Some s \<Rightarrow>
        shift_right addr (b + s))"

definition set_expr :: "c_int \<Rightarrow> c_int \<Rightarrow> mem_addr \<Rightarrow> mem_addr option" where
  "set_expr num_sets block_size addr =
     (case int_log2 block_size of None \<Rightarrow> None | Some b \<Rightarrow>
      case int_log2 num_sets of None \<Rightarrow> None | Some s \<Rightarrow>
      case shift_left addr (64 - (b + s)) of None \<Rightarrow> None | Some x \<Rightarrow>
        shift_right x (64 - s))"

definition decode :: "c_int \<Rightarrow> c_int \<Rightarrow> mem_addr \<Rightarrow> (c_int \<times> c_int) option" where
  "decode num_sets block_size addr =
     (case tag_expr num_sets block_size addr of None \<Rightarrow> None | Some t \<Rightarrow>
      case set_expr num_sets block_size addr of None \<Rightarrow> None | Some y \<Rightarrow>
        Some (ucast t, ucast y))"

section \<open>Recency ranks\<close>

text \<open>
  The body of the loop of \<open>updateLRU\<close> for one line. \<open>prev_lru\<close> is an \<open>int\<close> that was
  read from an \<open>unsigned int\<close> field and is compared with such fields, so it is compared
  as an unsigned value.
\<close>

definition updateLRU_line :: "c_int \<Rightarrow> Line \<Rightarrow> Line" where
  "updateLRU_line prev_lru l =
     (if valid l = 1 then
        (if lru l \<le> prev_lru then
           (if lru l = prev_lru then l\<lparr>lru := 0\<rparr> else l\<lparr>lru := lru l + 1\<rparr>)
         else l)
      else l)"

text \<open>\<open>for (i = 0; i < lines_per_set; i++)\<close> over the lines of one set.\<close>

definition updateLRU_lines :: "Lines \<Rightarrow> c_int \<Rightarrow> c_int \<Rightarrow> Lines" where
  "updateLRU_lines ls prev_lru lines_per_set =
     fold (\<lambda>i ls. ls[i := updateLRU_line prev_lru (ls ! i)]) [0..<nat (sint lines_per_set)] ls"

definition updateLRU :: "Cache \<Rightarrow> nat \<Rightarrow> c_int \<Rightarrow> c_int \<Rightarrow> Cache" where
  "updateLRU c set_num prev_lru lines_per_set =
     c[set_num := updateLRU_lines (c ! set_num) prev_lru lines_per_set]"

section \<open>The handlers\<close>

text \<open>The verbose branch at the end of each handler.\<close>

definition print_access :: "c_int \<Rightarrow> char \<Rightarrow> mem_addr \<Rightarrow> c_int \<Rightarrow> outcome \<Rightarrow> sim \<Rightarrow> sim" where
  "print_access verbose opn addr sz oc st =
     (if verbose \<noteq> 0 then st\<lparr>stdout := stdout st @ [Access_line opn addr sz oc]\<rparr> else st)"

definition hit :: "sim \<Rightarrow> c_int \<Rightarrow> mem_addr \<Rightarrow> nat \<Rightarrow> char \<Rightarrow> c_int \<Rightarrow> c_int \<Rightarrow> nat \<Rightarrow> c_int \<Rightarrow> sim" where
  "hit st lines_per_set addr i opn sz verbose set_num tg =
     (let st1 = (if opn = CHR ''M'' then st\<lparr>hit_count := hit_count st + 2\<rparr>
                 else st\<lparr>hit_count := hit_count st + 1\<rparr>);
          st2 = st1\<lparr>cache := updateLRU (cache st1) set_num
                                 (lru (cache st1 ! set_num ! i)) lines_per_set\<rparr>
      in print_access verbose opn addr sz HIT st2)"

definition install :: "Cache \<Rightarrow> nat \<Rightarrow> nat \<Rightarrow> (Line \<Rightarrow> Line) \<Rightarrow> Cache" where
  "install c set_num i f = c[set_num := (c ! set_num)[i := f (c ! set_num ! i)]]"

definition miss :: "sim \<Rightarrow> c_int \<Rightarrow> mem_addr \<Rightarrow> nat \<Rightarrow> char \<Rightarrow> c_int \<Rightarrow> c_int \<Rightarrow> nat \<Rightarrow> c_int \<Rightarrow> sim" where
  "miss st lines_per_set addr i opn sz verbose set_num tg =
     (let st1 = (if opn = CHR ''M''
                 then st\<lparr>miss_count := miss_count st + 1, hit_count := hit_count st + 1\<rparr>
                 else st\<lparr>miss_count := miss_count st + 1\<rparr>);
          st2 = st1\<lparr>cache := install (cache st1) set_num i (\<lambda>l. l\<lparr>valid := 1, tag := tg\<rparr>)\<rparr>;
          st3 = st2\<lparr>cache := updateLRU (cache st2) set_num
                                 (lru (cache st2 ! set_num ! i)) lines_per_set\<rparr>
      in print_access verbose opn addr sz MISS_FILL st3)"

definition eviction :: "sim \<Rightarrow> c_int \<Rightarrow> mem_addr \<Rightarrow> nat \<Rightarrow> char \<Rightarrow> c_int \<Rightarrow> c_int \<Rightarrow> nat \<Rightarrow> c_int \<Rightarrow> sim" where
  "eviction st lines_per_set addr i opn sz verbose set_num tg =
     (let st1 = (if opn = CHR ''M''
                 then st\<lparr>miss_count := miss_count st + 1, hit_count := hit_count st + 1,
                         eviction_count := eviction_count st + 1\<rparr>
                 else st\<lparr>miss_count := miss_count st + 1,
                         eviction_count := eviction_count st + 1\<rparr>);
          st2 = (if opn = CHR ''L''
                 then st1\<lparr>cache := install (cache st1) set_num i (\<lambda>l. l\<lparr>valid := 1, tag := tg\<rparr>)\<rparr>
                 else st1\<lparr>cache := install (cache st1) set_num i (\<lambda>l. l\<lparr>tag := tg\<rparr>)\<rparr>);
          st3 = st2\<lparr>cache := updateLRU (cache st2) set_num
                                 (lru (cache st2 ! set_num ! i)) lines_per_set\<rparr>
      in print_access verbose opn addr sz MISS_EVICT st3)"

section \<open>Classification and dispatch\<close>

text \<open>
  \<open>for (i = 0; i < lines_per_set; i++) if (P(Lines[i])) { ...; break; }\<close>: the first
  index below \<open>lines_per_set\<close> whose line satisfies the test, if there is one.
\<close>

definition scan :: "c_int \<Rightarrow> Lines \<Rightarrow> (Line \<Rightarrow> bool) \<Rightarrow> nat option" where
  "scan lines_per_set ls P = find (\<lambda>i. P (ls ! i)) [0..<nat (sint lines_per_set)]"

text \<open>
  The three loops that \<open>operationL\<close>, \<open>operationS\<close> and \<open>operationM\<close> share, with the
  \<open>found\<close> flag: the hit loop looks for a line with \<open>valid == 1\<close> and the tag; if it finds
  none, the second loop looks for a line with \<open>valid == 0\<close>; if that finds none, the
  third looks for a line with \<open>lru == lines_per_set - 1\<close>. A loop that finds nothing has
  changed nothing, so all three read the same lines. The result is the handler to
  call and the line index it is called on; \<open>None\<close> when \<open>found\<close> is still 0 at the end.
\<close>

definition classify :: "Lines \<Rightarrow> c_int \<Rightarrow> c_int \<Rightarrow> (outcome \<times> nat) option" where
  "classify ls lines_per_set tg =
     (case scan lines_per_set ls (\<lambda>l. valid l = 1 \<and> tag l = tg) of
        Some i \<Rightarrow> Some (HIT, i)
      | None \<Rightarrow>
     (case scan lines_per_set ls (\<lambda>l. valid l = 0) of
        Some i \<Rightarrow> Some (MISS_FILL, i)
      | None \<Rightarrow>
     (case scan lines_per_set ls (\<lambda>l. lru l = lines_per_set - 1) of
        Some i \<Rightarrow> Some (MISS_EVICT, i)
      | None \<Rightarrow> None)))"

text \<open>
  The common body of the three operations; \<open>opn\<close> is the letter the operation passes to
  the handlers. The parameter \<open>set\<close> is an \<open>int\<close> used as an array index. An index that
  \<open>decode\<close> returns is not negative and is below \<open>num_sets\<close> (lemma \<open>decode_set_range\<close>),
  and every set of a cache that a run reaches has \<open>lines_per_set\<close> lines (lemma
  \<open>simulateCache_ok\<close>), so the reads \<open>cache[set].Lines[i]\<close> of a run stay inside the
  arrays.
\<close>

definition operation_body :: "char \<Rightarrow> sim \<Rightarrow> c_int \<Rightarrow> mem_addr \<Rightarrow> c_int \<Rightarrow> c_int \<Rightarrow> c_int \<Rightarrow> c_int \<Rightarrow> sim" where
  "operation_body opn st lines_per_set addr sz verbose set_num tg =
     (let s = nat (sint set_num) in
      case classify (cache st ! s) lines_per_set tg of
        Some (HIT, i) \<Rightarrow> hit st lines_per_set addr i opn sz verbose s tg
      | Some (MISS_FILL, i) \<Rightarrow> miss st lines_per_set addr i opn sz verbose s tg
      | Some (MISS_EVICT, i) \<Rightarrow> eviction st lines_per_set addr i opn sz verbose s tg
      | None \<Rightarrow> st)"

definition operationL :: "sim \<Rightarrow> c_int \<Rightarrow> mem_addr \<Rightarrow> c_int \<Rightarrow> c_int \<Rightarrow> c_int \<Rightarrow> c_int \<Rightarrow> sim" where
  "operationL = operation_body CHR ''L''"

definition operationS :: "sim \<Rightarrow> c_int \<Rightarrow> mem_addr \<Rightarrow> c_int \<Rightarrow> c_int \<Rightarrow> c_int \<Rightarrow> c_int \<Rightarrow> sim" where
  "operationS = operation_body CHR ''S''"

definition operationM :: "sim \<Rightarrow> c_int \<Rightarrow> mem_addr \<Rightarrow> c_int \<Rightarrow> c_int \<Rightarrow> c_int \<Rightarrow> c_int \<Rightarrow> sim" where
  "operationM = operation_body CHR ''M''"

section \<open>The simulation loop\<close>

text \<open>
  The initialisation loops: \<open>num_sets\<close> sets of \<open>lines_per_set\<close> lines, line \<open>j\<close> with
  \<open>valid = 0\<close>, \<open>lru = j\<close>, \<open>tag = 0\<close>. A bound that is zero or negative gives no iteration.
\<close>

definition init_lines :: "c_int \<Rightarrow> Lines" where
  "init_lines lines_per_set =
     map (\<lambda>j. \<lparr>valid = 0, tag = 0, lru = of_nat j\<rparr>) [0..<nat (sint lines_per_set)]"

text \<open>The parameters of \<open>simulateCache\<close> other than the trace.\<close>

record config =
  num_sets :: c_int
  block_size :: c_int
  lines_per_set :: c_int
  verbose :: c_int

text \<open>\<open>!strncmp(operation, "L", 1)\<close>: the first character of the token is the letter.\<close>

definition is_op :: "string \<Rightarrow> char \<Rightarrow> bool" where
  "is_op tok c = (take 1 tok = [c])"

text \<open>
  The body of the \<open>while\<close> loop for one record of the trace. \<open>None\<close> is undefined
  behaviour in the address decomposition.
\<close>

definition trace_step :: "config \<Rightarrow> sim \<Rightarrow> event \<Rightarrow> sim option" where
  "trace_step cfg st ev =
     (case decode (num_sets cfg) (block_size cfg) (address ev) of
        None \<Rightarrow> None
      | Some (tg, set_num) \<Rightarrow>
          if is_op (operation ev) CHR ''L'' then
            Some (operationL st (lines_per_set cfg) (address ev) (size ev) (verbose cfg) set_num tg)
          else if is_op (operation ev) CHR ''S'' then
            Some (operationS st (lines_per_set cfg) (address ev) (size ev) (verbose cfg) set_num tg)
          else if is_op (operation ev) CHR ''M'' then
            Some (operationM st (lines_per_set cfg) (address ev) (size ev) (verbose cfg) set_num tg)
          else if is_op (operation ev) CHR ''I'' then Some st
          else Some (st\<lparr>stdout := stdout st @ [Error_line]\<rparr>))"

fun run_trace :: "config \<Rightarrow> sim \<Rightarrow> event list \<Rightarrow> sim option" where
  "run_trace cfg st [] = Some st"
| "run_trace cfg st (ev # evs) =
     (case trace_step cfg st ev of None \<Rightarrow> None | Some st' \<Rightarrow> run_trace cfg st' evs)"

definition init_sim :: "config \<Rightarrow> sim" where
  "init_sim cfg =
     \<lparr>cache = replicate (nat (sint (num_sets cfg))) (init_lines (lines_per_set cfg)),
      hit_count = 0, miss_count = 0, eviction_count = 0, stdout = []\<rparr>"

text \<open>
  \<open>simulateCache\<close> on the records that \<open>fscanf\<close> reads from the trace file. The counters
  of the final state are the arguments of \<open>printSummary\<close>.
\<close>

definition simulateCache :: "event list \<Rightarrow> config \<Rightarrow> sim option" where
  "simulateCache evs cfg = run_trace cfg (init_sim cfg) evs"

section \<open>Invariants of a cache set\<close>

text \<open>
  The lines of one set, \<open>n\<close> of them, of which the first \<open>k\<close> have been filled: the
  filled lines are valid and their ranks are distinct and below \<open>k\<close>; the other lines are
  invalid and still carry their initial rank, the slot index.
\<close>

definition ranks_ok :: "nat \<Rightarrow> nat \<Rightarrow> Lines \<Rightarrow> bool" where
  "ranks_ok n k ls \<longleftrightarrow>
     length ls = n \<and> k \<le> n \<and> n < 2 ^ 31 \<and>
     (\<forall>i<k. valid (ls ! i) = 1 \<and> unat (lru (ls ! i)) < k) \<and>
     (\<forall>i<n. k \<le> i \<longrightarrow> valid (ls ! i) = 0 \<and> lru (ls ! i) = of_nat i) \<and>
     (\<forall>i<k. \<forall>j<k. unat (lru (ls ! i)) = unat (lru (ls ! j)) \<longrightarrow> i = j)"

text \<open>No two valid lines of the set hold the same tag.\<close>

definition tags_ok :: "Lines \<Rightarrow> bool" where
  "tags_ok ls \<longleftrightarrow>
     (\<forall>i<length ls. \<forall>j<length ls.
        valid (ls ! i) = 1 \<and> valid (ls ! j) = 1 \<and> tag (ls ! i) = tag (ls ! j) \<longrightarrow> i = j)"

definition set_ok :: "nat \<Rightarrow> Lines \<Rightarrow> bool" where
  "set_ok n ls \<longleftrightarrow> (\<exists>k. ranks_ok n k ls) \<and> tags_ok ls"

definition cache_ok :: "config \<Rightarrow> Cache \<Rightarrow> bool" where
  "cache_ok cfg c \<longleftrightarrow>
     length c = nat (sint (num_sets cfg)) \<and>
     (\<forall>ls\<in>set c. set_ok (nat (sint (lines_per_set cfg))) ls)"

text \<open>What \<open>updateLRU\<close> does to the rank of a valid line, on natural numbers.\<close>

definition rerank :: "nat \<Rightarrow> nat \<Rightarrow> nat" where
  "rerank p r = (if r \<le> p then (if r = p then 0 else r + 1) else r)"

text \<open>
  The lines of the target set after an operation: the effect of the handler that the
  classification selects, without the counters and the printing.
\<close>

definition access_lines :: "char \<Rightarrow> Lines \<Rightarrow> c_int \<Rightarrow> c_int \<Rightarrow> Lines" where
  "access_lines opn ls E tg =
     (case classify ls E tg of
        Some (HIT, i) \<Rightarrow> updateLRU_lines ls (lru (ls ! i)) E
      | Some (MISS_FILL, i) \<Rightarrow>
          (let ls' = ls[i := (ls ! i)\<lparr>valid := 1, tag := tg\<rparr>]
           in updateLRU_lines ls' (lru (ls' ! i)) E)
      | Some (MISS_EVICT, i) \<Rightarrow>
          (let ls' = ls[i := (if opn = CHR ''L'' then (ls ! i)\<lparr>valid := 1, tag := tg\<rparr>
                              else (ls ! i)\<lparr>tag := tg\<rparr>)]
           in updateLRU_lines ls' (lru (ls' ! i)) E)
      | None \<Rightarrow> ls)"

text \<open>The rank values of the lines of a set, in slot order.\<close>

definition rank_values :: "Lines \<Rightarrow> nat list" where
  "rank_values ls = map (\<lambda>l. unat (lru l)) ls"

section \<open>Sample runs\<close>

definition trace_a :: "event list" where
  "trace_a =
     [\<lparr>operation = ''L'', address = 0x10, size = 1\<rparr>,
      \<lparr>operation = ''S'', address = 0x20, size = 4\<rparr>,
      \<lparr>operation = ''M'', address = 0x30, size = 4\<rparr>,
      \<lparr>operation = ''L'', address = 0x10, size = 1\<rparr>]"

definition config_a :: config where
  "config_a = \<lparr>num_sets = 2, block_size = 4, lines_per_set = 2, verbose = 0\<rparr>"

definition final_a :: sim where
  "final_a = \<lparr>cache = [[\<lparr>valid = 1, tag = 6, lru = 1\<rparr>, \<lparr>valid = 1, tag = 2, lru = 0\<rparr>],
                        [\<lparr>valid = 0, tag = 0, lru = 0\<rparr>, \<lparr>valid = 0, tag = 0, lru = 1\<rparr>]],
              hit_count = 1, miss_count = 4, eviction_count = 2, stdout = []\<rparr>"

definition config_zero :: config where
  "config_zero = \<lparr>num_sets = 2, block_size = 2, lines_per_set = 0, verbose = 0\<rparr>"

definition event_x :: event where
  "event_x = \<lparr>operation = ''X'', address = 0x10, size = 1\<rparr>"

section \<open>Counters and the table of the specification\<close>

definition counters :: "sim \<Rightarrow> c_int \<times> c_int \<times> c_int" where
  "counters st = (hit_count st, miss_count st, eviction_count st)"

fun add_counters :: "c_int \<times> c_int \<times> c_int \<Rightarrow> c_int \<times> c_int \<times> c_int \<Rightarrow> c_int \<times> c_int \<times> c_int" where
  "add_counters (h, m, e) (dh, dm, de) = (h + dh, m + dm, e + de)"

text \<open>
  The event kinds of the specification and the letter that stands for each in a trace
  record.
\<close>

datatype access_kind = Load | Store | Modify | Instruction

fun letter :: "access_kind \<Rightarrow> char" where
  "letter Load = CHR ''L''"
| "letter Store = CHR ''S''"
| "letter Modify = CHR ''M''"
| "letter Instruction = CHR ''I''"

text \<open>
  The table of the specification, row by row: what an event of a kind with a
  classification adds to hits, misses and evictions.
\<close>

fun table_row :: "access_kind \<Rightarrow> outcome \<Rightarrow> c_int \<times> c_int \<times> c_int" where
  "table_row Load HIT = (1, 0, 0)"
| "table_row Load MISS_FILL = (0, 1, 0)"
| "table_row Load MISS_EVICT = (0, 1, 1)"
| "table_row Store HIT = (1, 0, 0)"
| "table_row Store MISS_FILL = (0, 1, 0)"
| "table_row Store MISS_EVICT = (0, 1, 1)"
| "table_row Modify HIT = (2, 0, 0)"
| "table_row Modify MISS_FILL = (1, 1, 0)"
| "table_row Modify MISS_EVICT = (1, 1, 1)"
| "table_row Instruction _ = (0, 0, 0)"

text \<open>
  The two conditions of the specification on the target set at classification time:
  a valid line holds the tag; the lines that are free (invalid).
\<close>

definition tag_match :: "Lines \<Rightarrow> c_int \<Rightarrow> bool" where
  "tag_match ls tg = (\<exists>l\<in>set ls. valid l = 1 \<and> tag l = tg)"

definition free_lines :: "Lines \<Rightarrow> Lines" where
  "free_lines ls = filter (\<lambda>l. valid l = 0) ls"

section \<open>More sample inputs\<close>

definition event_m :: event where
  "event_m = \<lparr>operation = ''M'', address = 0x40, size = 4\<rparr>"

definition event_l :: event where
  "event_l = \<lparr>operation = ''L'', address = 0x40, size = 4\<rparr>"

definition event_h :: event where
  "event_h = \<lparr>operation = ''S'', address = 0x10, size = 4\<rparr>"

definition event_far :: event where
  "event_far = \<lparr>operation = ''S'', address = 0x800000040, size = 4\<rparr>"

definition final_b :: sim where
  "final_b = \<lparr>cache = [[\<lparr>valid = 1, tag = 8, lru = 0\<rparr>, \<lparr>valid = 1, tag = 2, lru = 1\<rparr>],
                        [\<lparr>valid = 0, tag = 0, lru = 0\<rparr>, \<lparr>valid = 0, tag = 0, lru = 1\<rparr>]],
              hit_count = 1, miss_count = 5, eviction_count = 3, stdout = []\<rparr>"

section \<open>Loops as list functions\<close>

lemma fold_update_map:
  "k \<le> length ls \<Longrightarrow>
   fold (\<lambda>i ls. ls[i := f (ls ! i)]) [0..<k] ls = map f (take k ls) @ drop k ls"
proof (induction k)
  case 0
  then show ?case by simp
next
  case (Suc k)
  then have k: "k < length ls" by simp
  have "fold (\<lambda>i ls. ls[i := f (ls ! i)]) [0..<Suc k] ls
        = (map f (take k ls) @ drop k ls)[k := f ((map f (take k ls) @ drop k ls) ! k)]"
    using Suc by simp
  also have "(map f (take k ls) @ drop k ls) ! k = ls ! k"
    using k by (simp add: nth_append)
  also have "(map f (take k ls) @ drop k ls)[k := f (ls ! k)]
        = map f (take k ls) @ (drop k ls)[0 := f (ls ! k)]"
    using k by (simp add: list_update_append)
  also have "(drop k ls)[0 := f (ls ! k)] = f (ls ! k) # drop (Suc k) ls"
    using k by (simp add: Cons_nth_drop_Suc [symmetric])
  finally show ?case
    using k by (simp add: take_Suc_conv_app_nth)
qed

lemma updateLRU_lines_map:
  "nat (sint E) = length ls \<Longrightarrow> updateLRU_lines ls p E = map (updateLRU_line p) ls"
  by (simp add: updateLRU_lines_def fold_update_map)

lemma scan_Some:
  "scan E ls P = Some i \<longleftrightarrow> i < nat (sint E) \<and> P (ls ! i) \<and> (\<forall>j<i. \<not> P (ls ! j))"
  unfolding scan_def find_Some_iff by auto

lemma scan_None: "scan E ls P = None \<longleftrightarrow> (\<forall>i<nat (sint E). \<not> P (ls ! i))"
  unfolding scan_def find_None_iff by auto


section \<open>The rank invariant under \<open>updateLRU\<close>\<close>

lemma rerank_inj: "rerank p r = rerank p r' \<Longrightarrow> r = r'"
  by (auto simp: rerank_def split: if_splits)

lemma rerank_less: "p < k \<Longrightarrow> r < k \<Longrightarrow> rerank p r < k"
  by (auto simp: rerank_def)

lemma updateLRU_line_valid [simp]: "valid (updateLRU_line p l) = valid l"
  by (simp add: updateLRU_line_def)

lemma updateLRU_line_tag [simp]: "tag (updateLRU_line p l) = tag l"
  by (simp add: updateLRU_line_def)

lemma updateLRU_line_invalid: "valid l \<noteq> 1 \<Longrightarrow> updateLRU_line p l = l"
  by (simp add: updateLRU_line_def)

lemma updateLRU_line_rank:
  assumes "valid l = 1" and "unat (lru l) < 2 ^ 31"
  shows "unat (lru (updateLRU_line p l)) = rerank (unat p) (unat (lru l))"
proof -
  have "unat (lru l + 1) = unat (lru l) + 1"
    using assms(2) by (simp add: unat_word_ariths)
  then show ?thesis
    using assms(1)
    by (auto simp: updateLRU_line_def rerank_def word_le_nat_alt word_unat_eq_iff)
qed

lemma ranks_ok_relabel:
  assumes ok: "ranks_ok n k ls" and p: "unat p < k"
  shows "ranks_ok n k (map (updateLRU_line p) ls)"
proof -
  from ok have len: "length ls = n" and kn: "k \<le> n" and n31: "n < 2 ^ 31"
    and pre: "\<And>i. i < k \<Longrightarrow> valid (ls ! i) = 1 \<and> unat (lru (ls ! i)) < k"
    and suf: "\<And>i. i < n \<Longrightarrow> k \<le> i \<Longrightarrow> valid (ls ! i) = 0 \<and> lru (ls ! i) = of_nat i"
    and inj: "\<And>i j. i < k \<Longrightarrow> j < k \<Longrightarrow> unat (lru (ls ! i)) = unat (lru (ls ! j)) \<Longrightarrow> i = j"
    unfolding ranks_ok_def by blast+
  have rk: "unat (lru (updateLRU_line p (ls ! i))) = rerank (unat p) (unat (lru (ls ! i)))"
    if "i < k" for i
  proof (rule updateLRU_line_rank)
    show "valid (ls ! i) = 1" using pre that by simp
    have "unat (lru (ls ! i)) < k" using pre that by simp
    then show "unat (lru (ls ! i)) < 2 ^ 31" using kn n31 by simp
  qed
  have inv: "updateLRU_line p (ls ! i) = ls ! i" if "i < n" "k \<le> i" for i
    using suf [OF that] by (simp add: updateLRU_line_invalid)
  show ?thesis
    unfolding ranks_ok_def
  proof (intro conjI allI impI)
    show "length (map (updateLRU_line p) ls) = n" using len by simp
    show "k \<le> n" by fact
    show "n < 2 ^ 31" by fact
  next
    fix i assume i: "i < k"
    then have "i < length ls" using kn len by simp
    then show "valid (map (updateLRU_line p) ls ! i) = 1"
      using pre i by simp
    show "unat (lru (map (updateLRU_line p) ls ! i)) < k"
      using \<open>i < length ls\<close> rk [OF i] pre [OF i] p by (simp add: rerank_less)
  next
    fix i assume i: "i < n" "k \<le> i"
    then show "valid (map (updateLRU_line p) ls ! i) = 0"
      using suf [OF i] len by simp
    show "lru (map (updateLRU_line p) ls ! i) = of_nat i"
      using suf [OF i] inv [OF i] len i by simp
  next
    fix i j assume i: "i < k" and j: "j < k"
      and e: "unat (lru (map (updateLRU_line p) ls ! i)) = unat (lru (map (updateLRU_line p) ls ! j))"
    have "i < length ls" "j < length ls" using i j kn len by simp_all
    then have "rerank (unat p) (unat (lru (ls ! i))) = rerank (unat p) (unat (lru (ls ! j)))"
      using e rk [OF i] rk [OF j] by simp
    then show "i = j" using inj [OF i j] rerank_inj by blast
  qed
qed

lemma ranks_ok_cong:
  assumes ok: "ranks_ok n k ls" and len': "length ls' = length ls"
    and same: "\<And>i. i < length ls \<Longrightarrow> valid (ls' ! i) = valid (ls ! i) \<and> lru (ls' ! i) = lru (ls ! i)"
  shows "ranks_ok n k ls'"
proof -
  from ok have len: "length ls = n" and kn: "k \<le> n" and n31: "n < 2 ^ 31"
    and pre: "\<And>i. i < k \<Longrightarrow> valid (ls ! i) = 1 \<and> unat (lru (ls ! i)) < k"
    and suf: "\<And>i. i < n \<Longrightarrow> k \<le> i \<Longrightarrow> valid (ls ! i) = 0 \<and> lru (ls ! i) = of_nat i"
    and inj: "\<And>i j. i < k \<Longrightarrow> j < k \<Longrightarrow> unat (lru (ls ! i)) = unat (lru (ls ! j)) \<Longrightarrow> i = j"
    unfolding ranks_ok_def by blast+
  have eq: "valid (ls' ! i) = valid (ls ! i) \<and> lru (ls' ! i) = lru (ls ! i)" if "i < n" for i
    using same [of i] that len by simp
  show ?thesis
    unfolding ranks_ok_def
  proof (intro conjI allI impI)
    show "length ls' = n" using len len' by simp
    show "k \<le> n" by fact
    show "n < 2 ^ 31" by fact
  next
    fix i assume i: "i < k"
    then have "i < n" using kn by simp
    from eq [OF this] pre [OF i]
    show "valid (ls' ! i) = 1" and "unat (lru (ls' ! i)) < k" by simp_all
  next
    fix i assume i: "i < n" "k \<le> i"
    from eq [OF i(1)] suf [OF i]
    show "valid (ls' ! i) = 0" and "lru (ls' ! i) = of_nat i" by simp_all
  next
    fix i j assume i: "i < k" and j: "j < k"
      and e: "unat (lru (ls' ! i)) = unat (lru (ls' ! j))"
    have "i < n" "j < n" using i j kn by simp_all
    from eq [OF this(1)] eq [OF this(2)] e
    have "unat (lru (ls ! i)) = unat (lru (ls ! j))" by simp
    then show "i = j" by (rule inj [OF i j])
  qed
qed

lemma ranks_ok_fill:
  assumes ok: "ranks_ok n k ls" and k: "k < n"
  shows "ranks_ok n (Suc k) (ls[k := (ls ! k)\<lparr>valid := 1, tag := t\<rparr>])"
proof -
  from ok have len: "length ls = n" and kn: "k \<le> n" and n31: "n < 2 ^ 31"
    and pre: "\<And>i. i < k \<Longrightarrow> valid (ls ! i) = 1 \<and> unat (lru (ls ! i)) < k"
    and suf: "\<And>i. i < n \<Longrightarrow> k \<le> i \<Longrightarrow> valid (ls ! i) = 0 \<and> lru (ls ! i) = of_nat i"
    and inj: "\<And>i j. i < k \<Longrightarrow> j < k \<Longrightarrow> unat (lru (ls ! i)) = unat (lru (ls ! j)) \<Longrightarrow> i = j"
    unfolding ranks_ok_def by blast+
  let ?ls = "ls[k := (ls ! k)\<lparr>valid := 1, tag := t\<rparr>]"
  have lruk: "lru (ls ! k) = of_nat k" using suf [of k] k by simp
  have "k < 2 ^ 32" using k n31 by simp
  then have uk: "unat (of_nat k :: 32 word) = k"
    by (simp add: unat_of_nat)
  have lru_same: "lru (?ls ! i) = lru (ls ! i)" if "i < n" for i
    using that len by (cases "i = k") simp_all
  have rank: "unat (lru (?ls ! i)) < Suc k" if "i < Suc k" for i
  proof (cases "i = k")
    case True
    then show ?thesis using lru_same [of k] k lruk uk by simp
  next
    case False
    then have "i < k" using that by simp
    then show ?thesis using pre [of i] lru_same [of i] k by simp
  qed
  show ?thesis
    unfolding ranks_ok_def
  proof (intro conjI allI impI)
    show "length ?ls = n" using len by simp
    show "Suc k \<le> n" using k by simp
    show "n < 2 ^ 31" by fact
  next
    fix i assume i: "i < Suc k"
    show "valid (?ls ! i) = 1"
      using i pre [of i] len k by (cases "i = k") simp_all
    show "unat (lru (?ls ! i)) < Suc k" by (rule rank [OF i])
  next
    fix i assume i: "i < n" "Suc k \<le> i"
    then have "k \<le> i" "i \<noteq> k" by simp_all
    with suf [of i] i len
    show "valid (?ls ! i) = 0" and "lru (?ls ! i) = of_nat i" by simp_all
  next
    fix i j assume i: "i < Suc k" and j: "j < Suc k"
      and e: "unat (lru (?ls ! i)) = unat (lru (?ls ! j))"
    have ij: "i < n" "j < n" using i j k by simp_all
    from e lru_same [OF ij(1)] lru_same [OF ij(2)]
    have e': "unat (lru (ls ! i)) = unat (lru (ls ! j))" by simp
    show "i = j"
    proof (cases "i = k")
      case True
      show ?thesis
      proof (rule ccontr)
        assume "i \<noteq> j"
        then have "j < k" using j True by simp
        then have "unat (lru (ls ! j)) < k" using pre by simp
        then show False using e' True lruk uk by simp
      qed
    next
      case False
      then have ik: "i < k" using i by simp
      show ?thesis
      proof (cases "j = k")
        case True
        have "unat (lru (ls ! i)) < k" using pre ik by simp
        then show ?thesis using e' True lruk uk by simp
      next
        case False
        then have "j < k" using j by simp
        then show ?thesis using inj [OF ik] e' by simp
      qed
    qed
  qed
qed

lemma tags_ok_relabel: "tags_ok ls \<Longrightarrow> tags_ok (map (updateLRU_line p) ls)"
  by (simp add: tags_ok_def)

lemma tags_ok_install:
  assumes ok: "tags_ok ls"
    and fresh: "\<And>j. j < length ls \<Longrightarrow> \<not> (valid (ls ! j) = 1 \<and> tag (ls ! j) = t)"
    and l': "tag l' = t"
  shows "tags_ok (ls[i := l'])"
  unfolding tags_ok_def
proof (intro allI impI)
  fix a b
  assume a: "a < length (ls[i := l'])" and b: "b < length (ls[i := l'])"
    and h: "valid (ls[i := l'] ! a) = 1 \<and> valid (ls[i := l'] ! b) = 1 \<and>
            tag (ls[i := l'] ! a) = tag (ls[i := l'] ! b)"
  have la: "a < length ls" and lb: "b < length ls" using a b by simp_all
  show "a = b"
  proof (cases "a = i")
    case ai: True
    show ?thesis
    proof (cases "b = i")
      case True
      with ai show ?thesis by simp
    next
      case False
      then have "valid (ls ! b) = 1 \<and> tag (ls ! b) = t"
        using h ai la lb l' by simp
      with fresh [OF lb] show ?thesis by simp
    qed
  next
    case ai: False
    show ?thesis
    proof (cases "b = i")
      case True
      then have "valid (ls ! a) = 1 \<and> tag (ls ! a) = t"
        using h ai la lb l' by simp
      with fresh [OF la] show ?thesis by simp
    next
      case False
      then have "valid (ls ! a) = 1 \<and> valid (ls ! b) = 1 \<and> tag (ls ! a) = tag (ls ! b)"
        using h ai by simp
      with ok la lb show ?thesis unfolding tags_ok_def by blast
    qed
  qed
qed


section \<open>Classification in a set that satisfies the invariant\<close>

lemma classify_HIT:
  "classify ls E tg = Some (HIT, i) \<longleftrightarrow> scan E ls (\<lambda>l. valid l = 1 \<and> tag l = tg) = Some i"
  by (auto simp: classify_def split: option.splits)

lemma classify_MISS_FILL:
  "classify ls E tg = Some (MISS_FILL, i) \<longleftrightarrow>
     scan E ls (\<lambda>l. valid l = 1 \<and> tag l = tg) = None \<and> scan E ls (\<lambda>l. valid l = 0) = Some i"
  by (auto simp: classify_def split: option.splits)

lemma classify_MISS_EVICT:
  "classify ls E tg = Some (MISS_EVICT, i) \<longleftrightarrow>
     scan E ls (\<lambda>l. valid l = 1 \<and> tag l = tg) = None \<and> scan E ls (\<lambda>l. valid l = 0) = None \<and>
     scan E ls (\<lambda>l. lru l = E - 1) = Some i"
  by (auto simp: classify_def split: option.splits)

lemma classify_None:
  "classify ls E tg = None \<longleftrightarrow>
     scan E ls (\<lambda>l. valid l = 1 \<and> tag l = tg) = None \<and> scan E ls (\<lambda>l. valid l = 0) = None \<and>
     scan E ls (\<lambda>l. lru l = E - 1) = None"
  by (auto simp: classify_def split: option.splits)

text \<open>What a classification says about a set that satisfies the rank invariant.\<close>

lemma ranks_ok_HIT:
  assumes ok: "ranks_ok (nat (sint E)) k ls" and c: "classify ls E tg = Some (HIT, i)"
  shows "i < k \<and> valid (ls ! i) = 1 \<and> tag (ls ! i) = tg \<and> unat (lru (ls ! i)) < k"
proof -
  from c have i: "i < nat (sint E)" and v: "valid (ls ! i) = 1" and t: "tag (ls ! i) = tg"
    by (simp_all add: classify_HIT scan_Some)
  have "i < k"
  proof (rule ccontr)
    assume "\<not> i < k"
    then have "valid (ls ! i) = 0" using ok i unfolding ranks_ok_def by simp
    with v show False by simp
  qed
  moreover from this have "unat (lru (ls ! i)) < k" using ok unfolding ranks_ok_def by blast
  ultimately show ?thesis using v t by simp
qed

lemma ranks_ok_MISS_FILL:
  assumes ok: "ranks_ok (nat (sint E)) k ls" and c: "classify ls E tg = Some (MISS_FILL, i)"
  shows "i = k \<and> k < nat (sint E) \<and>
         (\<forall>j<nat (sint E). \<not> (valid (ls ! j) = 1 \<and> tag (ls ! j) = tg))"
proof -
  from c have i: "i < nat (sint E)" and v: "valid (ls ! i) = 0"
    and before: "\<And>j. j < i \<Longrightarrow> valid (ls ! j) \<noteq> 0"
    and fresh: "\<forall>j<nat (sint E). \<not> (valid (ls ! j) = 1 \<and> tag (ls ! j) = tg)"
    by (simp_all add: classify_MISS_FILL scan_Some scan_None)
  have ki: "k \<le> i"
  proof (rule ccontr)
    assume "\<not> k \<le> i"
    then have "valid (ls ! i) = 1" using ok unfolding ranks_ok_def by simp
    with v show False by simp
  qed
  have "\<not> k < i"
  proof
    assume ki': "k < i"
    then have "valid (ls ! k) = 0" using ok i unfolding ranks_ok_def by simp
    with before [OF ki'] show False by simp
  qed
  with ki have "i = k" by simp
  then show ?thesis using i fresh by simp
qed

lemma ranks_ok_MISS_EVICT:
  assumes ok: "ranks_ok (nat (sint E)) k ls" and c: "classify ls E tg = Some (MISS_EVICT, i)"
  shows "k = nat (sint E) \<and> i < k \<and> lru (ls ! i) = E - 1 \<and> valid (ls ! i) = 1 \<and>
         unat (lru (ls ! i)) < k \<and>
         (\<forall>j<nat (sint E). \<not> (valid (ls ! j) = 1 \<and> tag (ls ! j) = tg))"
proof -
  from c have i: "i < nat (sint E)" and r: "lru (ls ! i) = E - 1"
    and full: "\<And>j. j < nat (sint E) \<Longrightarrow> valid (ls ! j) \<noteq> 0"
    and fresh: "\<forall>j<nat (sint E). \<not> (valid (ls ! j) = 1 \<and> tag (ls ! j) = tg)"
    by (simp_all add: classify_MISS_EVICT scan_Some scan_None)
  from ok have kn: "k \<le> nat (sint E)" unfolding ranks_ok_def by simp
  have "\<not> k < nat (sint E)"
  proof
    assume k: "k < nat (sint E)"
    then have "valid (ls ! k) = 0" using ok unfolding ranks_ok_def by simp
    with full [OF k] show False by simp
  qed
  with kn have k: "k = nat (sint E)" by simp
  then have "valid (ls ! i) = 1 \<and> unat (lru (ls ! i)) < k"
    using ok i unfolding ranks_ok_def by blast
  then show ?thesis using k i r fresh by simp
qed

lemma set_ok_access:
  assumes ok: "set_ok (nat (sint E)) ls"
  shows "set_ok (nat (sint E)) (access_lines opn ls E tg)"
proof -
  let ?n = "nat (sint E)"
  from ok obtain k where rk: "ranks_ok ?n k ls" and tg: "tags_ok ls"
    unfolding set_ok_def by blast
  from rk have len: "length ls = ?n" unfolding ranks_ok_def by simp
  show ?thesis
  proof (cases "classify ls E tg")
    case None
    then show ?thesis using ok by (simp add: access_lines_def)
  next
    case (Some ci)
    obtain c i where ci: "ci = (c, i)" by (cases ci)
    show ?thesis
    proof (cases c)
      case HIT
      with Some ci have c: "classify ls E tg = Some (HIT, i)" by simp
      from ranks_ok_HIT [OF rk c] have p: "unat (lru (ls ! i)) < k" by simp
      have eq: "access_lines opn ls E tg = map (updateLRU_line (lru (ls ! i))) ls"
        using c len by (simp add: access_lines_def updateLRU_lines_map)
      show ?thesis
        unfolding eq set_ok_def
        using ranks_ok_relabel [OF rk p] tags_ok_relabel [OF tg] by blast
    next
      case MISS_FILL
      with Some ci have c: "classify ls E tg = Some (MISS_FILL, i)" by simp
      from ranks_ok_MISS_FILL [OF rk c] have ik: "i = k" and kn: "k < ?n"
        and fresh: "\<And>j. j < ?n \<Longrightarrow> \<not> (valid (ls ! j) = 1 \<and> tag (ls ! j) = tg)"
        by simp_all
      let ?ls = "ls[k := (ls ! k)\<lparr>valid := 1, tag := tg\<rparr>]"
      have rk': "ranks_ok ?n (Suc k) ?ls" by (rule ranks_ok_fill [OF rk kn])
      have lk: "lru (?ls ! k) = of_nat k"
        using rk kn len unfolding ranks_ok_def by simp
      have "k < 2 ^ 32" using rk kn unfolding ranks_ok_def by simp
      then have p: "unat (lru (?ls ! k)) < Suc k" by (simp add: lk unat_of_nat)
      have tg': "tags_ok ?ls"
      proof (rule tags_ok_install [OF tg])
        show "\<not> (valid (ls ! j) = 1 \<and> tag (ls ! j) = tg)" if "j < length ls" for j
          using fresh that len by simp
        show "tag ((ls ! k)\<lparr>valid := 1, tag := tg\<rparr>) = tg" by simp
      qed
      have eq: "access_lines opn ls E tg = map (updateLRU_line (lru (?ls ! k))) ?ls"
        using c len ik by (simp add: access_lines_def updateLRU_lines_map Let_def)
      show ?thesis
        unfolding eq set_ok_def
        using ranks_ok_relabel [OF rk' p] tags_ok_relabel [OF tg'] by blast
    next
      case MISS_EVICT
      with Some ci have c: "classify ls E tg = Some (MISS_EVICT, i)" by simp
      from ranks_ok_MISS_EVICT [OF rk c] have ik: "i < k" and v: "valid (ls ! i) = 1"
        and r: "unat (lru (ls ! i)) < k"
        and fresh: "\<And>j. j < ?n \<Longrightarrow> \<not> (valid (ls ! j) = 1 \<and> tag (ls ! j) = tg)"
        by blast+
      let ?l = "if opn = CHR ''L'' then (ls ! i)\<lparr>valid := 1, tag := tg\<rparr> else (ls ! i)\<lparr>tag := tg\<rparr>"
      let ?ls = "ls[i := ?l]"
      have il: "i < length ls" using ranks_ok_MISS_EVICT [OF rk c] len by linarith
      have rk': "ranks_ok ?n k ?ls"
      proof (rule ranks_ok_cong [OF rk])
        show "length ?ls = length ls" by simp
        show "valid (?ls ! j) = valid (ls ! j) \<and> lru (?ls ! j) = lru (ls ! j)"
          if "j < length ls" for j
          using that v by (cases "j = i") simp_all
      qed
      have p: "unat (lru (?ls ! i)) < k" using r il by simp
      have tg': "tags_ok ?ls"
      proof (rule tags_ok_install [OF tg])
        show "\<not> (valid (ls ! j) = 1 \<and> tag (ls ! j) = tg)" if "j < length ls" for j
          using fresh that len by simp
        show "tag ?l = tg" by simp
      qed
      have eq: "access_lines opn ls E tg = map (updateLRU_line (lru (?ls ! i))) ?ls"
        using c len by (simp add: access_lines_def updateLRU_lines_map Let_def)
      show ?thesis
        unfolding eq set_ok_def
        using ranks_ok_relabel [OF rk' p] tags_ok_relabel [OF tg'] by blast
    qed
  qed
qed


section \<open>Properties of the address decomposition\<close>

lemma floor_log2_le: "0 < n \<Longrightarrow> 2 ^ floor_log2 n \<le> n"
proof (induction n rule: floor_log2.induct)
  case (1 n)
  show ?case
  proof (cases "n < 2")
    case True
    with 1 show ?thesis by (simp add: floor_log2.simps [of n])
  next
    case False
    then have "0 < n div 2" by simp
    with 1 False have "2 ^ floor_log2 (n div 2) \<le> n div 2" by simp
    then have "2 * 2 ^ floor_log2 (n div 2) \<le> n" by simp
    with False show ?thesis by (simp add: floor_log2.simps [of n])
  qed
qed

lemma floor_log2_pos: "2 \<le> n \<Longrightarrow> 0 < floor_log2 n"
  by (simp add: floor_log2.simps [of n])

lemma floor_log2_power: "floor_log2 (2 ^ k) = k"
proof (induction k)
  case 0
  show ?case by (simp add: floor_log2.simps [of "Suc 0"])
next
  case (Suc k)
  have "floor_log2 (2 ^ Suc k) = Suc (floor_log2 (2 ^ Suc k div 2))"
    by (subst floor_log2.simps) simp
  then show ?case using Suc by simp
qed

lemma floor_log2_bound: "0 < n \<Longrightarrow> n < 2 ^ 31 \<Longrightarrow> floor_log2 n \<le> 30"
proof -
  assume "0 < n" "n < 2 ^ 31"
  then have "(2::nat) ^ floor_log2 n < 2 ^ 31" using floor_log2_le [of n] by simp
  then have "floor_log2 n < 31"
    by (rule power_less_imp_less_exp [where a = "2::nat", rotated]) simp
  then show ?thesis by simp
qed

lemma sint_nat_bound: "nat (sint (x :: c_int)) < 2 ^ 31"
  using sint_lt [of x] by simp

lemma int_log2_Some:
  assumes "int_log2 x = Some s"
  shows "0 \<le> s \<and> s \<le> 30 \<and> 0 < sint x \<and> 2 ^ nat s \<le> nat (sint x)"
proof -
  from assms have pos: "0 < sint x" and s: "s = int (floor_log2 (nat (sint x)))"
    by (auto simp: int_log2_def split: if_splits)
  from pos have "0 < nat (sint x)" by simp
  from floor_log2_bound [OF this sint_nat_bound] floor_log2_le [OF this]
  show ?thesis using pos s by simp
qed

lemma set_field:
  fixes a :: "64 word"
  assumes "1 \<le> s" and "b + s \<le> 64"
  shows "drop_bit (64 - s) (push_bit (64 - (b + s)) a) = take_bit s (drop_bit b a)"
proof (rule bit_word_eqI)
  fix n assume "n < LENGTH(64)"
  then have n: "n < 64" by simp
  have "64 - s + n - (64 - (b + s)) = b + n" using assms by simp
  moreover have "64 - s + n < 64 \<longleftrightarrow> n < s" using assms by auto
  moreover have "64 - (b + s) \<le> 64 - s + n" using assms by simp
  ultimately show "bit (drop_bit (64 - s) (push_bit (64 - (b + s)) a)) n
        \<longleftrightarrow> bit (take_bit s (drop_bit b a)) n"
    by (simp add: bit_drop_bit_eq bit_push_bit_iff bit_take_bit_iff possible_bit_def)
qed

lemma decode_eq:
  assumes b: "int_log2 bs = Some (int b)" and s: "int_log2 ns = Some (int s)" and s1: "1 \<le> s"
  shows "decode ns bs a = Some (ucast (drop_bit (b + s) a), ucast (take_bit s (drop_bit b a)))"
proof -
  from int_log2_Some [OF b] int_log2_Some [OF s] have b30: "b \<le> 30" and s30: "s \<le> 30"
    by simp_all
  have n1: "nat (int b + int s) = b + s" by simp
  have n2: "nat (64 - (int b + int s)) = 64 - (b + s)" by simp
  have n3: "nat (64 - int s) = 64 - s" by simp
  have "b + s \<le> 64" using b30 s30 by simp
  from set_field [OF s1 this, of a] b30 s30 s1
  show ?thesis
    by (simp add: decode_def tag_expr_def set_expr_def b s shift_left_def shift_right_def n1 n2 n3)
qed

lemma decode_Some:
  assumes d: "decode ns bs a = Some (tg, sn)"
  shows "\<exists>b s. int_log2 bs = Some (int b) \<and> int_log2 ns = Some (int s) \<and> 1 \<le> s \<and> s \<le> 30 \<and>
           b \<le> 30 \<and> tg = ucast (drop_bit (b + s) a) \<and> sn = ucast (take_bit s (drop_bit b a))"
proof -
  from d obtain b' s' where b': "int_log2 bs = Some b'" and s': "int_log2 ns = Some s'"
    and s1: "64 - s' < 64"
    by (auto simp: decode_def tag_expr_def set_expr_def shift_left_def shift_right_def
        split: option.splits if_splits)
  define b where "b = nat b'"
  define s where "s = nat s'"
  from int_log2_Some [OF b'] have "0 \<le> b'" "b' \<le> 30" by simp_all
  then have b: "b' = int b" "b \<le> 30" unfolding b_def by linarith+
  from int_log2_Some [OF s'] have "0 \<le> s'" "s' \<le> 30" by simp_all
  with s1 have s: "s' = int s" "s \<le> 30" "1 \<le> s" unfolding s_def by linarith+
  from decode_eq [of bs b ns s a] b' s' b s d
  show ?thesis by auto
qed

lemma sint_small:
  fixes w :: c_int
  assumes "unat w < 2 ^ 31"
  shows "sint w = int (unat w)"
proof -
  have "int (unat w) < int (2 ^ 31)" using assms by (simp only: of_nat_less_iff)
  then have "uint w < 2 ^ 31" by simp
  moreover have "- (2 ^ 31) \<le> uint w"
  proof -
    have "- (2 ^ 31) \<le> (0::int)" by simp
    also have "0 \<le> uint w" by simp
    finally show ?thesis .
  qed
  ultimately have "signed_take_bit 31 (uint w) = uint w"
    by (intro signed_take_bit_int_eq_self)
  then show ?thesis by (simp add: sint_uint)
qed

lemma decode_set_range:
  assumes d: "decode ns bs a = Some (tg, sn)"
  shows "0 \<le> sint sn \<and> nat (sint sn) < nat (sint ns)"
proof -
  from decode_Some [OF d] obtain b s where s: "int_log2 ns = Some (int s)"
    and s1: "1 \<le> s" and s30: "s \<le> 30" and sn: "sn = ucast (take_bit s (drop_bit b a))"
    by blast
  from int_log2_Some [OF s] have le: "2 ^ s \<le> nat (sint ns)" by simp
  let ?y = "take_bit s (drop_bit b a) :: 64 word"
  have ys: "unat ?y < 2 ^ s"
    by (simp add: unsigned_take_bit_eq)
  moreover have "(2::nat) ^ s \<le> 2 ^ 30" using s30 by (intro power_increasing) simp_all
  ultimately have y30: "unat ?y < 2 ^ 30" by simp
  have eq: "unat sn = unat ?y"
    unfolding sn using y30 by (simp add: unsigned_ucast_eq take_bit_nat_eq_self)
  have "unat sn < 2 ^ 31" using eq y30 by simp
  then have sg: "sint sn = int (unat sn)" by (rule sint_small)
  have "unat sn < nat (sint ns)" using eq ys le by linarith
  then show ?thesis unfolding sg by simp
qed

lemma decode_defined:
  assumes "1 \<le> sint bs" and "2 \<le> sint ns"
  shows "\<exists>tg sn. decode ns bs a = Some (tg, sn)"
proof -
  have b: "int_log2 bs = Some (int (floor_log2 (nat (sint bs))))"
    using assms(1) by (simp add: int_log2_def)
  have s: "int_log2 ns = Some (int (floor_log2 (nat (sint ns))))"
    using assms(2) by (simp add: int_log2_def)
  have "2 \<le> nat (sint ns)" using assms(2) by simp
  from floor_log2_pos [OF this] have "1 \<le> floor_log2 (nat (sint ns))" by simp
  from decode_eq [OF b s this] show ?thesis by blast
qed


section \<open>The invariant along a run\<close>

lemma print_access_fields [simp]:
  "cache (print_access v opn a sz oc st) = cache st"
  "hit_count (print_access v opn a sz oc st) = hit_count st"
  "miss_count (print_access v opn a sz oc st) = miss_count st"
  "eviction_count (print_access v opn a sz oc st) = eviction_count st"
  by (simp_all add: print_access_def)

lemma hit_cache:
  "cache (hit st E a i opn sz v s tg)
     = (cache st)[s := updateLRU_lines (cache st ! s) (lru (cache st ! s ! i)) E]"
  by (simp add: hit_def updateLRU_def Let_def)

lemma install_update:
  "(install c s i f)[s := updateLRU_lines (install c s i f ! s) (lru (install c s i f ! s ! i)) E]
     = c[s := (let ls' = (c ! s)[i := f (c ! s ! i)] in updateLRU_lines ls' (lru (ls' ! i)) E)]"
proof (cases "s < length c")
  case True
  then show ?thesis by (simp add: install_def Let_def)
next
  case False
  then show ?thesis by (simp add: install_def list_update_beyond)
qed

lemma miss_cache:
  "cache (miss st E a i opn sz v s tg)
     = (cache st)[s := (let ls' = (cache st ! s)[i := (cache st ! s ! i)\<lparr>valid := 1, tag := tg\<rparr>]
                        in updateLRU_lines ls' (lru (ls' ! i)) E)]"
  using install_update [of "cache st" s i "\<lambda>l. l\<lparr>valid := 1, tag := tg\<rparr>" E]
  by (simp add: miss_def updateLRU_def Let_def)

lemma eviction_cache:
  "cache (eviction st E a i opn sz v s tg)
     = (cache st)[s := (let ls' = (cache st ! s)[i := (if opn = CHR ''L''
                                     then (cache st ! s ! i)\<lparr>valid := 1, tag := tg\<rparr>
                                     else (cache st ! s ! i)\<lparr>tag := tg\<rparr>)]
                        in updateLRU_lines ls' (lru (ls' ! i)) E)]"
  using install_update [of "cache st" s i "\<lambda>l. l\<lparr>valid := 1, tag := tg\<rparr>" E]
    install_update [of "cache st" s i "\<lambda>l. l\<lparr>tag := tg\<rparr>" E]
  by (simp add: eviction_def updateLRU_def Let_def)

lemma operation_body_cache:
  "cache (operation_body opn st E a sz v sn tg)
     = (cache st)[nat (sint sn) := access_lines opn (cache st ! nat (sint sn)) E tg]"
proof (cases "classify (cache st ! nat (sint sn)) E tg")
  case None
  then show ?thesis by (simp add: operation_body_def access_lines_def)
next
  case (Some ci)
  obtain c i where ci: "ci = (c, i)" by (cases ci)
  show ?thesis
    using Some ci
    by (cases c) (simp_all add: operation_body_def access_lines_def hit_cache miss_cache eviction_cache)
qed

lemma trace_step_cases:
  assumes "trace_step cfg st ev = Some st'"
  obtains (access) opn tg sn where
      "decode (num_sets cfg) (block_size cfg) (address ev) = Some (tg, sn)"
      "opn \<in> {CHR ''L'', CHR ''S'', CHR ''M''}" "is_op (operation ev) opn"
      "st' = operation_body opn st (lines_per_set cfg) (address ev) (size ev) (verbose cfg) sn tg"
    | (instruction) "is_op (operation ev) CHR ''I''" "st' = st"
    | (unknown) "\<forall>c \<in> {CHR ''L'', CHR ''S'', CHR ''M'', CHR ''I''}. \<not> is_op (operation ev) c"
      "st' = st\<lparr>stdout := stdout st @ [Error_line]\<rparr>"
proof -
  from assms obtain tg sn where d: "decode (num_sets cfg) (block_size cfg) (address ev) = Some (tg, sn)"
    by (auto simp: trace_step_def split: option.splits)
  show thesis
  proof (cases "is_op (operation ev) CHR ''L''")
    case True
    with assms d show thesis by (intro access [of tg sn "CHR ''L''"]) (simp_all add: trace_step_def operationL_def)
  next
    case nL: False
    show thesis
    proof (cases "is_op (operation ev) CHR ''S''")
      case True
      with assms d nL show thesis
        by (intro access [of tg sn "CHR ''S''"]) (simp_all add: trace_step_def operationS_def)
    next
      case nS: False
      show thesis
      proof (cases "is_op (operation ev) CHR ''M''")
        case True
        with assms d nL nS show thesis
          by (intro access [of tg sn "CHR ''M''"]) (simp_all add: trace_step_def operationM_def)
      next
        case nM: False
        show thesis
        proof (cases "is_op (operation ev) CHR ''I''")
          case True
          with assms d nL nS nM show thesis
            by (intro instruction) (simp_all add: trace_step_def)
        next
          case False
          with assms d nL nS nM show thesis
            by (intro unknown) (simp_all add: trace_step_def)
        qed
      qed
    qed
  qed
qed

lemma cache_ok_update:
  assumes ok: "cache_ok cfg c"
  shows "cache_ok cfg (c[s := access_lines opn (c ! s) (lines_per_set cfg) tg])"
proof (cases "s < length c")
  case False
  then show ?thesis using ok by (simp add: list_update_beyond)
next
  case True
  then have "set_ok (nat (sint (lines_per_set cfg))) (c ! s)"
    using ok unfolding cache_ok_def by simp
  then have new: "set_ok (nat (sint (lines_per_set cfg))) (access_lines opn (c ! s) (lines_per_set cfg) tg)"
    by (rule set_ok_access)
  show ?thesis
    unfolding cache_ok_def
  proof (intro conjI ballI)
    show "length (c[s := access_lines opn (c ! s) (lines_per_set cfg) tg]) = nat (sint (num_sets cfg))"
      using ok unfolding cache_ok_def by simp
    fix ls assume "ls \<in> set (c[s := access_lines opn (c ! s) (lines_per_set cfg) tg])"
    then have "ls = access_lines opn (c ! s) (lines_per_set cfg) tg \<or> ls \<in> set c"
      using set_update_subset_insert [of c s] by blast
    then show "set_ok (nat (sint (lines_per_set cfg))) ls"
      using new ok unfolding cache_ok_def by blast
  qed
qed

lemma trace_step_ok:
  assumes "trace_step cfg st ev = Some st'" and ok: "cache_ok cfg (cache st)"
  shows "cache_ok cfg (cache st')"
  using assms(1)
proof (cases rule: trace_step_cases)
  case (access opn tg sn)
  have "cache st' = (cache st)[nat (sint sn) :=
          access_lines opn (cache st ! nat (sint sn)) (lines_per_set cfg) tg]"
    unfolding access(4) by (rule operation_body_cache)
  then show ?thesis using cache_ok_update [OF ok] by simp
next
  case instruction
  then show ?thesis using ok by simp
next
  case unknown
  then show ?thesis using ok by simp
qed

lemma run_trace_ok:
  "run_trace cfg st evs = Some st' \<Longrightarrow> cache_ok cfg (cache st) \<Longrightarrow> cache_ok cfg (cache st')"
proof (induction evs arbitrary: st)
  case Nil
  then show ?case by simp
next
  case (Cons ev evs)
  then show ?case
    by (auto split: option.splits dest: trace_step_ok)
qed

lemma init_lines_ok: "set_ok (nat (sint E)) (init_lines E)"
proof -
  have "ranks_ok (nat (sint E)) 0 (init_lines E)"
    unfolding ranks_ok_def using sint_nat_bound [of E] by (simp add: init_lines_def)
  moreover have "tags_ok (init_lines E)"
    by (simp add: tags_ok_def init_lines_def)
  ultimately show ?thesis unfolding set_ok_def by blast
qed

lemma init_sim_ok: "cache_ok cfg (cache (init_sim cfg))"
  by (simp add: cache_ok_def init_sim_def init_lines_ok)

lemma simulateCache_ok: "simulateCache evs cfg = Some st \<Longrightarrow> cache_ok cfg (cache st)"
  unfolding simulateCache_def using run_trace_ok init_sim_ok by blast


text \<open>
  With at least two sets and a positive block size the address decomposition is defined
  for every record, so the run is defined for every trace.
\<close>

lemma trace_step_defined:
  assumes "2 \<le> sint (num_sets cfg)" and "1 \<le> sint (block_size cfg)"
  shows "\<exists>st'. trace_step cfg st ev = Some st'"
proof -
  from decode_defined [OF assms(2) assms(1)] obtain tg sn
    where "decode (num_sets cfg) (block_size cfg) (address ev) = Some (tg, sn)" by blast
  then show ?thesis by (simp add: trace_step_def)
qed

lemma run_trace_defined:
  assumes "2 \<le> sint (num_sets cfg)" and "1 \<le> sint (block_size cfg)"
  shows "\<exists>st'. run_trace cfg st evs = Some st'"
proof (induction evs arbitrary: st)
  case Nil
  show ?case by simp
next
  case (Cons ev evs)
  from trace_step_defined [OF assms, of st ev] obtain st1
    where "trace_step cfg st ev = Some st1" by blast
  with Cons.IH [of st1] show ?case by simp
qed

lemma simulateCache_defined:
  "2 \<le> sint (num_sets cfg) \<Longrightarrow> 1 \<le> sint (block_size cfg) \<Longrightarrow>
     \<exists>st. simulateCache evs cfg = Some st"
  unfolding simulateCache_def by (rule run_trace_defined)

lemma ranks_ok_valid: "ranks_ok n k ls \<Longrightarrow> i < n \<Longrightarrow> valid (ls ! i) = 0 \<or> valid (ls ! i) = 1"
  unfolding ranks_ok_def by (cases "i < k") auto

lemma ranks_ok_inj:
  assumes ok: "ranks_ok n k ls"
  shows "inj_on (\<lambda>i. unat (lru (ls ! i))) {0..<n} \<and> (\<lambda>i. unat (lru (ls ! i))) ` {0..<n} \<subseteq> {0..<n}"
proof -
  let ?f = "\<lambda>i. unat (lru (ls ! i))"
  from ok have kn: "k \<le> n" and n31: "n < 2 ^ 31"
    and pre: "\<And>i. i < k \<Longrightarrow> ?f i < k"
    and suf: "\<And>i. i < n \<Longrightarrow> k \<le> i \<Longrightarrow> lru (ls ! i) = of_nat i"
    and inj: "\<And>i j. i < k \<Longrightarrow> j < k \<Longrightarrow> ?f i = ?f j \<Longrightarrow> i = j"
    unfolding ranks_ok_def by blast+
  have hi: "?f i = i" if "i < n" "k \<le> i" for i
  proof -
    have "i < 2 ^ 32" using that(1) n31 by simp
    then show ?thesis using suf [OF that] by (simp add: unat_of_nat)
  qed
  have "i = j" if i: "i < n" and j: "j < n" and e: "?f i = ?f j" for i j
  proof (cases "i < k")
    case ik: True
    show ?thesis
    proof (cases "j < k")
      case True
      then show ?thesis using inj [OF ik _ e] by simp
    next
      case False
      then have "?f j = j" using hi j by simp
      then show ?thesis using pre [OF ik] e False by simp
    qed
  next
    case ik: False
    then have fi: "?f i = i" using hi i by simp
    show ?thesis
    proof (cases "j < k")
      case True
      then show ?thesis using pre [OF True] e fi ik by simp
    next
      case False
      then have "?f j = j" using hi j by simp
      then show ?thesis using fi e by simp
    qed
  qed
  then have "inj_on ?f {0..<n}" by (auto intro: inj_onI)
  moreover have "?f i < n" if "i < n" for i
  proof (cases "i < k")
    case True
    then show ?thesis using pre [OF True] kn by simp
  next
    case False
    then show ?thesis using hi that by simp
  qed
  then have "?f ` {0..<n} \<subseteq> {0..<n}" by auto
  ultimately show ?thesis by simp
qed

lemma ranks_ok_surj:
  assumes ok: "ranks_ok n k ls"
  shows "(\<lambda>i. unat (lru (ls ! i))) ` {0..<n} = {0..<n}"
  using ranks_ok_inj [OF ok] by (intro endo_inj_surj) simp_all

lemma ranks_ok_perm:
  assumes ok: "ranks_ok n k ls"
  shows "mset (rank_values ls) = mset [0..<n]"
proof -
  let ?f = "\<lambda>i. unat (lru (ls ! i))"
  from ok have len: "length ls = n" unfolding ranks_ok_def by simp
  have rv: "rank_values ls = map ?f [0..<n]"
    by (simp add: list_eq_iff_nth_eq len rank_values_def)
  have d: "distinct (map ?f [0..<n])"
    using ranks_ok_inj [OF ok] by (simp add: distinct_map)
  have s: "set (map ?f [0..<n]) = set [0..<n]"
    using ranks_ok_surj [OF ok] by simp
  have "distinct [0..<n]" by simp
  from set_eq_iff_mset_eq_distinct [OF d this] s show ?thesis
    unfolding rv by blast
qed

section \<open>Claims\<close>

text \<open>
  C2 (rank permutation invariant). In the state that \<open>simulateCache\<close> reaches after
  any sequence of trace records, the empty sequence included, the cache has \<open>num_sets\<close>
  sets, every set has \<open>lines_per_set\<close> lines, and the multiset of the \<open>lru\<close> values of
  the lines of a set, valid and invalid alike, is exactly \<open>{0, ..., lines_per_set - 1}\<close>.
\<close>

theorem rank_permutation:
  "simulateCache evs cfg = Some st \<Longrightarrow>
     length (cache st) = nat (sint (num_sets cfg)) \<and>
     (\<forall>ls\<in>set (cache st).
        length ls = nat (sint (lines_per_set cfg)) \<and>
        mset (rank_values ls) = mset [0..<nat (sint (lines_per_set cfg))])"
proof -
  assume "simulateCache evs cfg = Some st"
  then have ok: "cache_ok cfg (cache st)" by (rule simulateCache_ok)
  have "length ls = nat (sint (lines_per_set cfg)) \<and>
        mset (rank_values ls) = mset [0..<nat (sint (lines_per_set cfg))]"
    if "ls \<in> set (cache st)" for ls
  proof -
    from ok that obtain k where rk: "ranks_ok (nat (sint (lines_per_set cfg))) k ls"
      unfolding cache_ok_def set_ok_def by blast
    then show ?thesis using ranks_ok_perm [OF rk] unfolding ranks_ok_def by simp
  qed
  then show ?thesis using ok unfolding cache_ok_def by blast
qed

text \<open>A run of four accesses to one set of a two-way cache.\<close>

lemma simulate_a: "simulateCache trace_a config_a = Some final_a"
  by code_simp

theorem rank_permutation_witness:
  "simulateCache trace_a config_a = Some final_a \<and>
   length (cache final_a) = 2 \<and>
   mset (rank_values (cache final_a ! 0)) = mset [0..<2] \<and>
   mset (rank_values (cache final_a ! 1)) = mset [0..<2]"
proof -
  have "cache final_a ! 0 \<in> set (cache final_a)" "cache final_a ! 1 \<in> set (cache final_a)"
    by (simp_all add: final_a_def)
  with rank_permutation [OF simulate_a] simulate_a show ?thesis
    by (simp add: config_a_def)
qed

lemma unat_two_power:
  assumes "s \<le> 30"
  shows "unat ((2::c_int) ^ s) = 2 ^ s" and "sint ((2::c_int) ^ s) = 2 ^ s"
proof -
  have "(2::nat) ^ s \<le> 2 ^ 30" using assms by (intro power_increasing) simp_all
  then have lt: "(2::nat) ^ s < 2 ^ 32" by simp
  have "unat ((2::c_int) ^ s) = unat (word_of_nat (2 ^ s) :: c_int)" by simp
  also have "\<dots> = 2 ^ s" using lt by (simp only: unat_of_nat) simp
  finally show u: "unat ((2::c_int) ^ s) = 2 ^ s" .
  have "unat ((2::c_int) ^ s) < 2 ^ 31" using \<open>(2::nat) ^ s \<le> 2 ^ 30\<close> unfolding u by simp
  from sint_small [OF this] show "sint ((2::c_int) ^ s) = 2 ^ s" unfolding u by simp
qed

lemma int_log2_power: "s \<le> 30 \<Longrightarrow> int_log2 (2 ^ s) = Some (int s)"
  by (simp add: int_log2_def unat_two_power nat_power_eq floor_log2_power)

lemma unat_drop: "unat (drop_bit n (a::mem_addr)) = unat a div 2 ^ n"
  unfolding unat_drop_bit_eq by (simp add: drop_bit_eq_div)

text \<open>
  C4 (address decomposition), as amended. For \<open>num_sets = 2 ^ s\<close> and
  \<open>block_size = 2 ^ b\<close> with \<open>1 \<le> s \<le> 30\<close> and \<open>b \<le> 30\<close>, the decomposition of every
  64-bit address is defined: the tag is the low 32 bits of \<open>address >> (b + s)\<close>, and the
  set index is \<open>(address >> b) mod 2 ^ s\<close>.
\<close>

theorem decode_fields:
  assumes s1: "1 \<le> s" and s30: "s \<le> 30" and b30: "b \<le> 30"
  shows "\<exists>tg sn. decode (2 ^ s) (2 ^ b) a = Some (tg, sn) \<and>
           unat tg = (unat a div 2 ^ (b + s)) mod 2 ^ 32 \<and>
           0 \<le> sint sn \<and> nat (sint sn) = (unat a div 2 ^ b) mod 2 ^ s"
proof -
  let ?tg = "ucast (drop_bit (b + s) a) :: c_int"
  let ?sn = "ucast (take_bit s (drop_bit b a)) :: c_int"
  have d: "decode (2 ^ s) (2 ^ b) a = Some (?tg, ?sn)"
    by (rule decode_eq [OF int_log2_power [OF b30] int_log2_power [OF s30] s1])
  have t: "unat ?tg = (unat a div 2 ^ (b + s)) mod 2 ^ 32"
    by (simp add: unsigned_ucast_eq unat_drop take_bit_eq_mod)
  have "unat ?sn = take_bit (min s 32) (unat a div 2 ^ b)"
    by (simp add: unsigned_ucast_eq unsigned_take_bit_eq unat_drop)
  also have "min s 32 = s" using s30 by simp
  finally have u: "unat ?sn = (unat a div 2 ^ b) mod 2 ^ s" by (simp add: take_bit_eq_mod)
  have "unat ?sn < 2 ^ s" unfolding u by simp
  moreover have "(2::nat) ^ s \<le> 2 ^ 30" using s30 by (intro power_increasing) simp_all
  ultimately have "unat ?sn < 2 ^ 31" by simp
  from sint_small [OF this] have "sint ?sn = int (unat ?sn)" .
  then have "0 \<le> sint ?sn \<and> nat (sint ?sn) = (unat a div 2 ^ b) mod 2 ^ s"
    using u by simp
  with d t show ?thesis by blast
qed

text \<open>
  The amended C4 at \<open>s = 2\<close>, \<open>b = 4\<close> and an address of 37 bits.
\<close>

theorem decode_fields_witness:
  "decode (2 ^ 2) (2 ^ 4) 0x12345678FF = Some (0x48D159E3, 3) \<and>
   unat (0x48D159E3 :: c_int) = (unat (0x12345678FF :: mem_addr) div 2 ^ (4 + 2)) mod 2 ^ 32 \<and>
   nat (sint (3 :: c_int)) = (unat (0x12345678FF :: mem_addr) div 2 ^ 4) mod 2 ^ 2"
proof -
  have d: "decode (2 ^ 2) (2 ^ 4) 0x12345678FF = Some (0x48D159E3, 3)" by code_simp
  from decode_fields [of 2 4 "0x12345678FF"] d show ?thesis by simp
qed

text \<open>
  C4 as stated fails. With \<open>s = 1\<close> and \<open>b = 1\<close> the address \<open>2 ^ 34\<close> has
  \<open>address >> (b + s) = 2 ^ 32\<close>, and the decoded tag is 0. With \<open>s = 0\<close> (\<open>num_sets = 1\<close>)
  the set index is computed with a shift by 64 bits, which is undefined.
\<close>

theorem decode_counterexample:
  "decode 2 2 0x400000000 = Some (0, 0) \<and>
   drop_bit (1 + 1) (0x400000000 :: mem_addr) = 0x100000000 \<and>
   decode 1 2 0 = None"
  by code_simp


text \<open>
  C5 (at most one tag per set). In the state that \<open>simulateCache\<close> reaches after any
  sequence of trace records, the empty sequence included, two different lines of a set
  that are both valid hold different tags.
\<close>

theorem one_tag_per_set:
  assumes run: "simulateCache evs cfg = Some st" and ls: "ls \<in> set (cache st)"
    and i: "i < length ls" and j: "j < length ls" and ij: "i \<noteq> j"
    and vi: "valid (ls ! i) \<noteq> 0" and vj: "valid (ls ! j) \<noteq> 0"
  shows "tag (ls ! i) \<noteq> tag (ls ! j)"
proof -
  from simulateCache_ok [OF run] ls obtain k
    where rk: "ranks_ok (nat (sint (lines_per_set cfg))) k ls" and tg: "tags_ok ls"
    unfolding cache_ok_def set_ok_def by blast
  from rk have len: "length ls = nat (sint (lines_per_set cfg))" unfolding ranks_ok_def by simp
  from ranks_ok_valid [OF rk] i vi len have "valid (ls ! i) = 1" by auto
  moreover from ranks_ok_valid [OF rk] j vj len have "valid (ls ! j) = 1" by auto
  ultimately show ?thesis using tg i j ij unfolding tags_ok_def by blast
qed

text \<open>
  C5 on the two lines of set 0 after the sample run.
\<close>

theorem one_tag_per_set_witness:
  "simulateCache trace_a config_a = Some final_a \<and>
   valid (cache final_a ! 0 ! 0) \<noteq> 0 \<and> valid (cache final_a ! 0 ! 1) \<noteq> 0 \<and>
   tag (cache final_a ! 0 ! 0) \<noteq> tag (cache final_a ! 0 ! 1)"
proof -
  have "cache final_a ! 0 \<in> set (cache final_a)" by (simp add: final_a_def)
  from one_tag_per_set [OF simulate_a this, of 0 1] simulate_a show ?thesis
    by (simp add: final_a_def)
qed

text \<open>
  C7 (unrecognised operation). When the address decomposition is defined
  (\<open>num_sets \<ge> 2\<close>, \<open>block_size \<ge> 1\<close>), a trace record whose operation token starts with
  none of \<open>L\<close>, \<open>S\<close>, \<open>M\<close>, \<open>I\<close> makes the simulator print the line \<open>Error\<close>; the
  cache and the three counters stay as they were.
\<close>

theorem unknown_operation:
  assumes geo: "2 \<le> sint (num_sets cfg)" "1 \<le> sint (block_size cfg)"
    and kind: "\<not> is_op (operation ev) CHR ''L''" "\<not> is_op (operation ev) CHR ''S''"
      "\<not> is_op (operation ev) CHR ''M''" "\<not> is_op (operation ev) CHR ''I''"
  shows "\<exists>st'. trace_step cfg st ev = Some st' \<and> stdout st' = stdout st @ [Error_line] \<and>
           cache st' = cache st \<and> hit_count st' = hit_count st \<and>
           miss_count st' = miss_count st \<and> eviction_count st' = eviction_count st"
proof -
  from decode_defined [OF geo(2) geo(1)] obtain tg sn
    where "decode (num_sets cfg) (block_size cfg) (address ev) = Some (tg, sn)" by blast
  then have "trace_step cfg st ev = Some (st\<lparr>stdout := stdout st @ [Error_line]\<rparr>)"
    using kind by (simp add: trace_step_def)
  then show ?thesis by simp
qed

text \<open>
  C7 for a record with the operation \<open>X\<close> in the final state of the sample run.
\<close>

theorem unknown_operation_witness:
  "trace_step config_a final_a event_x = Some (final_a\<lparr>stdout := [Error_line]\<rparr>)"
proof -
  have "2 \<le> sint (num_sets config_a)" "1 \<le> sint (block_size config_a)"
    by (simp_all add: config_a_def)
  moreover have "\<not> is_op (operation event_x) CHR ''L''" "\<not> is_op (operation event_x) CHR ''S''"
      "\<not> is_op (operation event_x) CHR ''M''" "\<not> is_op (operation event_x) CHR ''I''"
    by (simp_all add: event_x_def is_op_def)
  ultimately obtain st' where "trace_step config_a final_a event_x = Some st'"
    "stdout st' = stdout final_a @ [Error_line]" "cache st' = cache final_a"
    "hit_count st' = hit_count final_a" "miss_count st' = miss_count final_a"
    "eviction_count st' = eviction_count final_a"
    using unknown_operation [of config_a event_x final_a] by blast
  then show ?thesis by (cases st') (simp add: final_a_def)
qed

lemma classify_no_lines: "sint E \<le> 0 \<Longrightarrow> classify ls E tg = None"
  by (simp add: classify_def scan_def)

lemma trace_step_no_lines:
  assumes E: "sint (lines_per_set cfg) \<le> 0"
    and geo: "2 \<le> sint (num_sets cfg)" "1 \<le> sint (block_size cfg)"
  shows "\<exists>st'. trace_step cfg st ev = Some st' \<and> cache st' = cache st \<and>
           hit_count st' = hit_count st \<and> miss_count st' = miss_count st \<and>
           eviction_count st' = eviction_count st"
proof -
  from decode_defined [OF geo(2) geo(1)] obtain tg sn
    where d: "decode (num_sets cfg) (block_size cfg) (address ev) = Some (tg, sn)" by blast
  have "operation_body opn st (lines_per_set cfg) a sz v sn tg = st" for opn a sz v
    by (simp add: operation_body_def classify_no_lines [OF E])
  then show ?thesis
    using d by (simp add: trace_step_def operationL_def operationS_def operationM_def)
qed

lemma run_trace_no_lines:
  assumes E: "sint (lines_per_set cfg) \<le> 0"
    and geo: "2 \<le> sint (num_sets cfg)" "1 \<le> sint (block_size cfg)"
  shows "\<exists>st'. run_trace cfg st evs = Some st' \<and> cache st' = cache st \<and>
           hit_count st' = hit_count st \<and> miss_count st' = miss_count st \<and>
           eviction_count st' = eviction_count st"
proof (induction evs arbitrary: st)
  case Nil
  show ?case by simp
next
  case (Cons ev evs)
  from trace_step_no_lines [OF E geo, of st ev] obtain st1
    where 1: "trace_step cfg st ev = Some st1" "cache st1 = cache st"
      "hit_count st1 = hit_count st" "miss_count st1 = miss_count st"
      "eviction_count st1 = eviction_count st" by blast
  from Cons.IH [of st1] obtain st2
    where 2: "run_trace cfg st1 evs = Some st2" "cache st2 = cache st1"
      "hit_count st2 = hit_count st1" "miss_count st2 = miss_count st1"
      "eviction_count st2 = eviction_count st1" by blast
  from 1 2 show ?case by simp
qed

text \<open>
  C6 (zero lines per set), as amended. \<open>simulateCache\<close> has no check of the geometry.
  With \<open>lines_per_set \<le> 0\<close> (and \<open>num_sets \<ge> 2\<close>, \<open>block_size \<ge> 1\<close>) it builds a cache of
  \<open>num_sets\<close> sets without lines and runs the whole trace; no access is classified, and
  the three counters are 0 at the end.
\<close>

theorem zero_lines_run:
  assumes "sint (lines_per_set cfg) \<le> 0"
    and "2 \<le> sint (num_sets cfg)" and "1 \<le> sint (block_size cfg)"
  shows "\<exists>st. simulateCache evs cfg = Some st \<and>
           cache st = replicate (nat (sint (num_sets cfg))) [] \<and>
           hit_count st = 0 \<and> miss_count st = 0 \<and> eviction_count st = 0"
proof -
  have "cache (init_sim cfg) = replicate (nat (sint (num_sets cfg))) []"
    using assms(1) by (simp add: init_sim_def init_lines_def)
  moreover have "hit_count (init_sim cfg) = 0" "miss_count (init_sim cfg) = 0"
    "eviction_count (init_sim cfg) = 0" by (simp_all add: init_sim_def)
  ultimately show ?thesis
    using run_trace_no_lines [OF assms, of "init_sim cfg" evs]
    unfolding simulateCache_def by auto
qed

text \<open>
  The amended C6 on the sample trace with \<open>lines_per_set = 0\<close>.
\<close>

theorem zero_lines_run_witness:
  "\<exists>st. simulateCache trace_a config_zero = Some st \<and> cache st = [[], []] \<and>
     hit_count st = 0 \<and> miss_count st = 0 \<and> eviction_count st = 0"
  using zero_lines_run [of config_zero trace_a]
  by (simp add: config_zero_def numeral_2_eq_2)

text \<open>
  C6 as stated fails: with \<open>lines_per_set = 0\<close> the simulation of a trace with one load
  runs to its end and reports 0 hits, 0 misses and 0 evictions.
\<close>

theorem zero_lines_counterexample:
  "simulateCache [\<lparr>operation = ''L'', address = 0, size = 1\<rparr>] config_zero
     = Some \<lparr>cache = [[], []], hit_count = 0, miss_count = 0, eviction_count = 0, stdout = []\<rparr>"
  by code_simp

lemma unat_nonneg_int:
  fixes E :: c_int
  assumes "0 \<le> sint E"
  shows "unat E = nat (sint E)"
proof -
  have e: "(word_of_int (sint E) :: c_int) = E" by simp
  have "sint E < 2 ^ 31" using sint_lt [of E] by simp
  also have "\<dots> < (2::int) ^ 32" by simp
  finally have t: "take_bit 32 (sint E) = sint E"
    using assms by (intro take_bit_int_eq_self)
  have "uint (word_of_int (sint E) :: c_int) = take_bit 32 (sint E)"
    by (simp only: uint_word_of_int_eq) simp
  also note t
  finally have "uint E = sint E" unfolding e .
  then show ?thesis by (simp add: unat_eq_nat_uint)
qed

lemma unat_pred_int:
  fixes E :: c_int
  assumes "0 < sint E"
  shows "unat (E - 1) = nat (sint E) - 1"
proof -
  have "E \<noteq> 0" using assms by auto
  from unat_minus_one [OF this] unat_nonneg_int [of E] assms show ?thesis by simp
qed


lemma updateLRU_line_zero: "updateLRU_line 0 l = l"
  by (simp add: updateLRU_line_def)

lemma updateLRU_line_self:
  "valid l = 1 \<Longrightarrow> lru (updateLRU_line (lru l) l) = 0"
  by (simp add: updateLRU_line_def)

text \<open>
  In a set that satisfies the rank invariant the three handlers have one effect on the
  lines: the selected line gets the tag and becomes valid, then the ranks are updated
  with the rank that line had.
\<close>

lemma access_lines_form:
  assumes rk: "ranks_ok (nat (sint E)) k ls" and c: "classify ls E tg = Some (oc, i)"
  shows "i < nat (sint E) \<and>
         access_lines opn ls E tg =
           map (updateLRU_line (lru (ls ! i))) (ls[i := (ls ! i)\<lparr>valid := 1, tag := tg\<rparr>])"
proof -
  let ?n = "nat (sint E)"
  from rk have len: "length ls = ?n" and kn: "k \<le> ?n" unfolding ranks_ok_def by simp_all
  show ?thesis
  proof (cases oc)
    case HIT
    with c have c': "classify ls E tg = Some (HIT, i)" by simp
    from ranks_ok_HIT [OF rk c'] have i: "i < k" and v: "valid (ls ! i) = 1" and t: "tag (ls ! i) = tg"
      by simp_all
    have "(ls ! i)\<lparr>valid := 1, tag := tg\<rparr> = ls ! i" using v t by simp
    then have "ls[i := (ls ! i)\<lparr>valid := 1, tag := tg\<rparr>] = ls" by simp
    then show ?thesis
      using c' len i kn by (simp add: access_lines_def updateLRU_lines_map)
  next
    case MISS_FILL
    with c have c': "classify ls E tg = Some (MISS_FILL, i)" by simp
    from ranks_ok_MISS_FILL [OF rk c'] have i: "i < ?n" by simp
    then show ?thesis
      using c' len by (simp add: access_lines_def updateLRU_lines_map Let_def)
  next
    case MISS_EVICT
    with c have c': "classify ls E tg = Some (MISS_EVICT, i)" by simp
    from ranks_ok_MISS_EVICT [OF rk c'] have i: "i < ?n" and v: "valid (ls ! i) = 1"
      by linarith+
    have "(ls ! i)\<lparr>tag := tg\<rparr> = (ls ! i)\<lparr>valid := 1, tag := tg\<rparr>" using v by simp
    then show ?thesis
      using c' len i by (simp add: access_lines_def updateLRU_lines_map Let_def)
  qed
qed

lemma access_lines_installed:
  assumes rk: "ranks_ok (nat (sint E)) k ls" and c: "classify ls E tg = Some (oc, i)"
  shows "valid (access_lines opn ls E tg ! i) = 1 \<and> tag (access_lines opn ls E tg ! i) = tg \<and>
         lru (access_lines opn ls E tg ! i) = 0 \<and>
         (\<forall>j<nat (sint E). j \<noteq> i \<longrightarrow>
            valid (access_lines opn ls E tg ! j) = valid (ls ! j) \<and>
            tag (access_lines opn ls E tg ! j) = tag (ls ! j))"
proof -
  from rk have len: "length ls = nat (sint E)" unfolding ranks_ok_def by simp
  from access_lines_form [OF rk c, of opn] have i: "i < length ls"
    and eq: "access_lines opn ls E tg =
           map (updateLRU_line (lru (ls ! i))) (ls[i := (ls ! i)\<lparr>valid := 1, tag := tg\<rparr>])"
    using len by simp_all
  have "lru (updateLRU_line (lru (ls ! i)) ((ls ! i)\<lparr>valid := 1, tag := tg\<rparr>)) = 0"
    using updateLRU_line_self [of "(ls ! i)\<lparr>valid := 1, tag := tg\<rparr>"] by simp
  then show ?thesis
    unfolding eq using i len by simp
qed

text \<open>With at least one line per set, every access is classified.\<close>

lemma classify_defined:
  assumes rk: "ranks_ok (nat (sint E)) k ls" and E: "0 < sint E"
  shows "\<exists>oc i. classify ls E tg = Some (oc, i)"
proof (rule ccontr)
  assume "\<not> (\<exists>oc i. classify ls E tg = Some (oc, i))"
  then have "classify ls E tg = None" by (cases "classify ls E tg") auto
  then have full: "\<And>j. j < nat (sint E) \<Longrightarrow> valid (ls ! j) \<noteq> 0"
    and none: "\<And>j. j < nat (sint E) \<Longrightarrow> lru (ls ! j) \<noteq> E - 1"
    by (simp_all add: classify_None scan_None)
  let ?n = "nat (sint E)"
  have n: "0 < ?n" using E by simp
  then have "?n - 1 \<in> {0..<?n}" by simp
  then have "?n - 1 \<in> (\<lambda>i. unat (lru (ls ! i))) ` {0..<?n}"
    using ranks_ok_surj [OF rk] by simp
  then obtain j where j: "j < ?n" and r: "unat (lru (ls ! j)) = ?n - 1" by auto
  from r unat_pred_int [OF E] have "unat (lru (ls ! j)) = unat (E - 1)" by simp
  then have "lru (ls ! j) = E - 1" by (simp only: word_unat_eq_iff)
  with none [OF j] show False by simp
qed

text \<open>The access just made is found again: a second access to the same tag is a hit.\<close>

lemma classify_after_access:
  assumes ok: "set_ok (nat (sint E)) ls" and c: "classify ls E tg = Some (oc, i)"
  shows "classify (access_lines opn ls E tg) E tg = Some (HIT, i)"
proof -
  let ?ls = "access_lines opn ls E tg"
  from ok obtain k where rk: "ranks_ok (nat (sint E)) k ls" unfolding set_ok_def by blast
  from set_ok_access [OF ok, of opn tg] obtain k' where rk': "ranks_ok (nat (sint E)) k' ?ls"
    and tg': "tags_ok ?ls" unfolding set_ok_def by blast
  from rk' have len: "length ?ls = nat (sint E)" unfolding ranks_ok_def by simp
  from access_lines_form [OF rk c, of opn] have i: "i < nat (sint E)" by simp
  from access_lines_installed [OF rk c, of opn]
  have v: "valid (?ls ! i) = 1" and t: "tag (?ls ! i) = tg" by simp_all
  have "\<not> (valid (?ls ! j) = 1 \<and> tag (?ls ! j) = tg)" if "j < i" for j
  proof
    assume "valid (?ls ! j) = 1 \<and> tag (?ls ! j) = tg"
    with v t tg' that i len have "j = i" unfolding tags_ok_def by simp
    with that show False by simp
  qed
  with i v t have "scan E ?ls (\<lambda>l. valid l = 1 \<and> tag l = tg) = Some i"
    by (simp add: scan_Some)
  then show ?thesis by (simp add: classify_HIT)
qed

lemma access_lines_again:
  assumes ok: "set_ok (nat (sint E)) ls" and c: "classify ls E tg = Some (oc, i)"
  shows "access_lines opn' (access_lines opn ls E tg) E tg = access_lines opn ls E tg"
proof -
  let ?ls = "access_lines opn ls E tg"
  from ok obtain k where rk: "ranks_ok (nat (sint E)) k ls" unfolding set_ok_def by blast
  from set_ok_access [OF ok, of opn tg] obtain k' where rk': "ranks_ok (nat (sint E)) k' ?ls"
    unfolding set_ok_def by blast
  from rk' have len: "length ?ls = nat (sint E)" unfolding ranks_ok_def by simp
  from access_lines_installed [OF rk c, of opn] have z: "lru (?ls ! i) = 0" by simp
  have "access_lines opn' ?ls E tg = map (updateLRU_line (lru (?ls ! i))) ?ls"
    using classify_after_access [OF ok c, of opn] len
    by (simp add: access_lines_def updateLRU_lines_map)
  also have "\<dots> = ?ls" unfolding z by (simp add: updateLRU_line_zero map_idI)
  finally show ?thesis .
qed

lemma access_lines_letter:
  assumes ok: "set_ok (nat (sint E)) ls"
  shows "access_lines opn ls E tg = access_lines opn' ls E tg"
proof (cases "classify ls E tg")
  case None
  then show ?thesis by (simp add: access_lines_def)
next
  case (Some ci)
  obtain oc i where "ci = (oc, i)" by (cases ci)
  with Some have c: "classify ls E tg = Some (oc, i)" by simp
  from ok obtain k where rk: "ranks_ok (nat (sint E)) k ls" unfolding set_ok_def by blast
  from access_lines_form [OF rk c, of opn] access_lines_form [OF rk c, of opn']
  show ?thesis by simp
qed


lemma print_access_counters [simp]: "counters (print_access v opn a sz oc st) = counters st"
  by (simp add: counters_def)

lemma operation_body_counters:
  assumes "classify (cache st ! nat (sint sn)) E tg = Some (oc, i)" and "k \<noteq> Instruction"
  shows "counters (operation_body (letter k) st E a sz v sn tg)
           = add_counters (counters st) (table_row k oc)"
  using assms
  by (cases k; cases oc)
     (simp_all add: operation_body_def hit_def miss_def eviction_def Let_def counters_def)

lemma operation_body_unclassified:
  "classify (cache st ! nat (sint sn)) E tg = None \<Longrightarrow>
     operation_body opn st E a sz v sn tg = st"
  by (simp add: operation_body_def)

lemma trace_step_access:
  assumes "decode (num_sets cfg) (block_size cfg) (address ev) = Some (tg, sn)"
    and "is_op (operation ev) (letter k)"
  shows "trace_step cfg st ev =
           Some (if k = Instruction then st
                 else operation_body (letter k) st (lines_per_set cfg) (address ev) (size ev)
                        (verbose cfg) sn tg)"
  using assms
  by (cases k) (simp_all add: trace_step_def is_op_def operationL_def operationS_def operationM_def)

lemma target_set_ok:
  assumes run: "simulateCache evs cfg = Some st"
    and d: "decode (num_sets cfg) (block_size cfg) a = Some (tg, sn)"
  shows "nat (sint sn) < length (cache st) \<and>
         set_ok (nat (sint (lines_per_set cfg))) (cache st ! nat (sint sn))"
proof -
  from simulateCache_ok [OF run] have ok: "cache_ok cfg (cache st)" .
  from decode_set_range [OF d] ok have "nat (sint sn) < length (cache st)"
    unfolding cache_ok_def by simp
  then show ?thesis using ok unfolding cache_ok_def by simp
qed


lemma run_trace_snoc:
  "run_trace cfg st0 evs = Some st \<Longrightarrow> trace_step cfg st ev = Some st' \<Longrightarrow>
     run_trace cfg st0 (evs @ [ev]) = Some st'"
  by (induction evs arbitrary: st0) (auto split: option.splits)

lemma access_step:
  assumes run: "simulateCache evs cfg = Some st"
    and E: "0 < sint (lines_per_set cfg)"
    and d: "decode (num_sets cfg) (block_size cfg) (address ev) = Some (tg, sn)"
    and k: "is_op (operation ev) (letter k)" "k \<noteq> Instruction"
  obtains oc i st' where
    "classify (cache st ! nat (sint sn)) (lines_per_set cfg) tg = Some (oc, i)"
    "trace_step cfg st ev = Some st'"
    "counters st' = add_counters (counters st) (table_row k oc)"
    "cache st' = (cache st)[nat (sint sn) :=
        access_lines (letter k) (cache st ! nat (sint sn)) (lines_per_set cfg) tg]"
    "classify (cache st' ! nat (sint sn)) (lines_per_set cfg) tg = Some (HIT, i)"
    "simulateCache (evs @ [ev]) cfg = Some st'"
proof -
  let ?s = "nat (sint sn)" and ?E = "lines_per_set cfg"
  let ?st' = "operation_body (letter k) st ?E (address ev) (size ev) (verbose cfg) sn tg"
  from target_set_ok [OF run d] have s: "?s < length (cache st)"
    and ok: "set_ok (nat (sint ?E)) (cache st ! ?s)" by simp_all
  from ok obtain n where rk: "ranks_ok (nat (sint ?E)) n (cache st ! ?s)"
    unfolding set_ok_def by blast
  from classify_defined [OF rk E] obtain oc i
    where c: "classify (cache st ! ?s) ?E tg = Some (oc, i)" by blast
  have step: "trace_step cfg st ev = Some ?st'"
    using trace_step_access [OF d k(1)] k(2) by simp
  have cnt: "counters ?st' = add_counters (counters st) (table_row k oc)"
    by (rule operation_body_counters [OF c k(2)])
  have ch: "cache ?st' = (cache st)[?s := access_lines (letter k) (cache st ! ?s) ?E tg]"
    by (rule operation_body_cache)
  have "cache ?st' ! ?s = access_lines (letter k) (cache st ! ?s) ?E tg"
    unfolding ch using s by simp
  then have again: "classify (cache ?st' ! ?s) ?E tg = Some (HIT, i)"
    using classify_after_access [OF ok c] by simp
  have "run_trace cfg (init_sim cfg) (evs @ [ev]) = Some ?st'"
    using run step unfolding simulateCache_def by (rule run_trace_snoc)
  then have "simulateCache (evs @ [ev]) cfg = Some ?st'" by (simp add: simulateCache_def)
  with c step cnt ch again show thesis by (rule that)
qed


text \<open>
  C1 (counter updates). In a state that \<open>simulateCache\<close> reaches, with at least one line
  per set, an event whose address decodes and whose operation letter is that of kind
  \<open>k\<close> is processed, and: an Instruction leaves the state as it is; a Load, Store or
  Modify is classified, and the counters grow by the row of the table for the kind and
  the classification. For a Modify, moreover, a Load of the same address followed by a
  Store of the same address gives the same counters and the same cache, and the Store
  is a hit.
\<close>

theorem counter_table:
  assumes run: "simulateCache evs cfg = Some st"
    and E: "0 < sint (lines_per_set cfg)"
    and d: "decode (num_sets cfg) (block_size cfg) (address ev) = Some (tg, sn)"
    and k: "is_op (operation ev) (letter k)"
  shows "\<exists>st'. trace_step cfg st ev = Some st' \<and>
     (case k of
        Instruction \<Rightarrow> st' = st
      | Modify \<Rightarrow>
          (\<exists>oc i st1 st2 j.
             classify (cache st ! nat (sint sn)) (lines_per_set cfg) tg = Some (oc, i) \<and>
             counters st' = add_counters (counters st) (table_row Modify oc) \<and>
             trace_step cfg st (ev\<lparr>operation := ''L''\<rparr>) = Some st1 \<and>
             classify (cache st1 ! nat (sint sn)) (lines_per_set cfg) tg = Some (HIT, j) \<and>
             trace_step cfg st1 (ev\<lparr>operation := ''S''\<rparr>) = Some st2 \<and>
             counters st2 = counters st' \<and> cache st2 = cache st')
      | _ \<Rightarrow>
          (\<exists>oc i.
             classify (cache st ! nat (sint sn)) (lines_per_set cfg) tg = Some (oc, i) \<and>
             counters st' = add_counters (counters st) (table_row k oc)))"
proof (cases "k = Instruction")
  case True
  then show ?thesis using trace_step_access [OF d k, of st] by simp
next
  case nI: False
  let ?s = "nat (sint sn)" and ?E = "lines_per_set cfg"
  let ?ls = "cache st ! ?s"
  from access_step [OF run E d k nI] obtain oc i st'
    where c: "classify ?ls ?E tg = Some (oc, i)"
      and step: "trace_step cfg st ev = Some st'"
      and cnt: "counters st' = add_counters (counters st) (table_row k oc)"
      and ch: "cache st' = (cache st)[?s := access_lines (letter k) ?ls ?E tg]"
    by blast
  show ?thesis
  proof (cases "k = Modify")
    case False
    with nI c step cnt show ?thesis by (cases k) auto
  next
    case M: True
    let ?evL = "ev\<lparr>operation := ''L''\<rparr>" and ?evS = "ev\<lparr>operation := ''S''\<rparr>"
    from target_set_ok [OF run d] have s: "?s < length (cache st)"
      and ok: "set_ok (nat (sint ?E)) ?ls" by simp_all
    have dL: "decode (num_sets cfg) (block_size cfg) (address ?evL) = Some (tg, sn)"
      using d by simp
    have kL: "is_op (operation ?evL) (letter Load)" by (simp add: is_op_def)
    from access_step [OF run E dL kL] obtain oc1 i1 st1
      where c1: "classify ?ls ?E tg = Some (oc1, i1)"
        and step1: "trace_step cfg st ?evL = Some st1"
        and cnt1: "counters st1 = add_counters (counters st) (table_row Load oc1)"
        and ch1: "cache st1 = (cache st)[?s := access_lines (letter Load) ?ls ?E tg]"
        and hit1: "classify (cache st1 ! ?s) ?E tg = Some (HIT, i1)"
        and run1: "simulateCache (evs @ [?evL]) cfg = Some st1"
      by blast
    from c c1 have oc1: "oc1 = oc" by simp
    have dS: "decode (num_sets cfg) (block_size cfg) (address ?evS) = Some (tg, sn)"
      using d by simp
    have kS: "is_op (operation ?evS) (letter Store)" by (simp add: is_op_def)
    from access_step [OF run1 E dS kS] obtain oc2 i2 st2
      where c2: "classify (cache st1 ! ?s) ?E tg = Some (oc2, i2)"
        and step2: "trace_step cfg st1 ?evS = Some st2"
        and cnt2: "counters st2 = add_counters (counters st1) (table_row Store oc2)"
        and ch2: "cache st2 = (cache st1)[?s := access_lines (letter Store) (cache st1 ! ?s) ?E tg]"
      by blast
    from c2 hit1 have oc2: "oc2 = HIT" by simp
    have "counters st2 = counters st'"
      unfolding cnt2 cnt1 cnt oc1 oc2 M
      by (cases "counters st"; cases oc) simp_all
    moreover have "cache st2 = cache st'"
    proof -
      have "cache st1 ! ?s = access_lines (letter Load) ?ls ?E tg"
        unfolding ch1 using s by simp
      then have "access_lines (letter Store) (cache st1 ! ?s) ?E tg
                   = access_lines (letter Load) ?ls ?E tg"
        using access_lines_again [OF ok c] by simp
      then have "cache st2 = (cache st)[?s := access_lines (letter Load) ?ls ?E tg]"
        unfolding ch2 ch1 by simp
      also have "\<dots> = cache st'"
        unfolding ch using access_lines_letter [OF ok, of "letter Load" tg "letter k"] by simp
      finally show ?thesis .
    qed
    ultimately show ?thesis
      using M c step cnt step1 hit1 step2 by auto
  qed
qed

lemma classify_final_a:
  "decode (num_sets config_a) (block_size config_a) 0x40 = Some (8, 0)"
  "classify (cache final_a ! 0) (lines_per_set config_a) 8 = Some (MISS_EVICT, 0)"
  by code_simp+

text \<open>
  C1 for a Modify that evicts, in the final state of the sample run: one hit, one miss
  and one eviction are added to \<open>(1, 4, 2)\<close>.
\<close>

theorem counter_table_witness:
  "\<exists>st'. trace_step config_a final_a event_m = Some st' \<and> counters st' = (2, 5, 3)"
proof -
  have d: "decode (num_sets config_a) (block_size config_a) (address event_m) = Some (8, 0)"
    using classify_final_a(1) by (simp add: event_m_def)
  have k: "is_op (operation event_m) (letter Modify)" by (simp add: event_m_def is_op_def)
  have E: "0 < sint (lines_per_set config_a)" by (simp add: config_a_def)
  from counter_table [OF simulate_a E d k] classify_final_a(2)
  show ?thesis by (auto simp: counters_def final_a_def)
qed


lemma tag_match_nth:
  "tag_match ls tg \<longleftrightarrow> (\<exists>j<length ls. valid (ls ! j) = 1 \<and> tag (ls ! j) = tg)"
  unfolding tag_match_def by (metis in_set_conv_nth)

lemma free_lines_nth: "free_lines ls = [] \<longleftrightarrow> (\<forall>j<length ls. valid (ls ! j) \<noteq> 0)"
  unfolding free_lines_def filter_empty_conv by (metis in_set_conv_nth)

text \<open>
  C3 (eviction only when full). In a state that \<open>simulateCache\<close> reaches, with at least
  one line per set, a Load, Store or Modify whose address decodes is classified as a
  miss with eviction if and only if no valid line of the target set holds the tag and
  the set has no free line; the eviction counter grows by one in exactly that case.
  The line that is evicted has rank \<open>lines_per_set - 1\<close>; it receives the tag, and every
  other line of the set keeps its tag and its valid field.
\<close>

theorem eviction_only_when_full:
  assumes run: "simulateCache evs cfg = Some st"
    and E: "0 < sint (lines_per_set cfg)"
    and d: "decode (num_sets cfg) (block_size cfg) (address ev) = Some (tg, sn)"
    and k: "is_op (operation ev) (letter k)" "k \<noteq> Instruction"
  shows "\<exists>st' oc i.
     trace_step cfg st ev = Some st' \<and>
     classify (cache st ! nat (sint sn)) (lines_per_set cfg) tg = Some (oc, i) \<and>
     (oc = MISS_EVICT \<longleftrightarrow>
        \<not> tag_match (cache st ! nat (sint sn)) tg \<and> free_lines (cache st ! nat (sint sn)) = []) \<and>
     eviction_count st' = eviction_count st + (if oc = MISS_EVICT then 1 else 0) \<and>
     (oc = MISS_EVICT \<longrightarrow>
        i < length (cache st ! nat (sint sn)) \<and>
        unat (lru (cache st ! nat (sint sn) ! i)) = nat (sint (lines_per_set cfg)) - 1 \<and>
        tag (cache st' ! nat (sint sn) ! i) = tg \<and>
        (\<forall>j<length (cache st ! nat (sint sn)). j \<noteq> i \<longrightarrow>
           tag (cache st' ! nat (sint sn) ! j) = tag (cache st ! nat (sint sn) ! j) \<and>
           valid (cache st' ! nat (sint sn) ! j) = valid (cache st ! nat (sint sn) ! j)))"
proof -
  let ?s = "nat (sint sn)" and ?E = "lines_per_set cfg"
  let ?ls = "cache st ! ?s"
  from access_step [OF run E d k] obtain oc i st'
    where c: "classify ?ls ?E tg = Some (oc, i)"
      and step: "trace_step cfg st ev = Some st'"
      and cnt: "counters st' = add_counters (counters st) (table_row k oc)"
      and ch: "cache st' = (cache st)[?s := access_lines (letter k) ?ls ?E tg]"
    by blast
  from target_set_ok [OF run d] have s: "?s < length (cache st)"
    and ok: "set_ok (nat (sint ?E)) ?ls" by simp_all
  from ok obtain n where rk: "ranks_ok (nat (sint ?E)) n ?ls" unfolding set_ok_def by blast
  from rk have len: "length ?ls = nat (sint ?E)" unfolding ranks_ok_def by simp
  have new: "cache st' ! ?s = access_lines (letter k) ?ls ?E tg" unfolding ch using s by simp
  have match: "tag_match ?ls tg \<longleftrightarrow> (\<exists>j<nat (sint ?E). valid (?ls ! j) = 1 \<and> tag (?ls ! j) = tg)"
    unfolding tag_match_nth len ..
  have free: "free_lines ?ls = [] \<longleftrightarrow> (\<forall>j<nat (sint ?E). valid (?ls ! j) \<noteq> 0)"
    unfolding free_lines_nth len ..
  have iff: "oc = MISS_EVICT \<longleftrightarrow> \<not> tag_match ?ls tg \<and> free_lines ?ls = []"
  proof (cases oc)
    case HIT
    with c have "scan ?E ?ls (\<lambda>l. valid l = 1 \<and> tag l = tg) = Some i" by (simp add: classify_HIT)
    then have "tag_match ?ls tg" unfolding match scan_Some by blast
    with HIT show ?thesis by simp
  next
    case MISS_FILL
    with c have "scan ?E ?ls (\<lambda>l. valid l = 0) = Some i" by (simp add: classify_MISS_FILL)
    then have "free_lines ?ls \<noteq> []" unfolding free scan_Some by blast
    with MISS_FILL show ?thesis by simp
  next
    case MISS_EVICT
    with c have "scan ?E ?ls (\<lambda>l. valid l = 1 \<and> tag l = tg) = None"
      and "scan ?E ?ls (\<lambda>l. valid l = 0) = None" by (simp_all add: classify_MISS_EVICT)
    then have "\<not> tag_match ?ls tg" and "free_lines ?ls = []"
      unfolding match free scan_None by blast+
    with MISS_EVICT show ?thesis by simp
  qed
  have ev: "eviction_count st' = eviction_count st + (if oc = MISS_EVICT then 1 else 0)"
    using cnt k(2) by (cases k; cases oc) (simp_all add: counters_def)
  have victim: "i < length ?ls \<and> unat (lru (?ls ! i)) = nat (sint ?E) - 1 \<and>
        tag (cache st' ! ?s ! i) = tg \<and>
        (\<forall>j<length ?ls. j \<noteq> i \<longrightarrow>
           tag (cache st' ! ?s ! j) = tag (?ls ! j) \<and> valid (cache st' ! ?s ! j) = valid (?ls ! j))"
    if "oc = MISS_EVICT"
  proof -
    from c that have c': "classify ?ls ?E tg = Some (MISS_EVICT, i)" by simp
    from ranks_ok_MISS_EVICT [OF rk c'] have "lru (?ls ! i) = ?E - 1" by blast
    then have "unat (lru (?ls ! i)) = nat (sint ?E) - 1" using unat_pred_int [OF E] by simp
    moreover from access_lines_form [OF rk c] have "i < length ?ls" using len by simp
    ultimately show ?thesis
      using access_lines_installed [OF rk c, of "letter k"] unfolding new len by simp
  qed
  from step c iff ev victim show ?thesis by blast
qed

text \<open>
  C3 for a Load of a new tag into the full set 0 of the sample run.
\<close>

theorem eviction_only_when_full_witness:
  "\<exists>st'. trace_step config_a final_a event_l = Some st' \<and>
     \<not> tag_match (cache final_a ! 0) 8 \<and> free_lines (cache final_a ! 0) = [] \<and>
     eviction_count st' = eviction_count final_a + 1 \<and>
     unat (lru (cache final_a ! 0 ! 0)) = 1 \<and> tag (cache st' ! 0 ! 0) = 8"
proof -
  have d: "decode (num_sets config_a) (block_size config_a) (address event_l) = Some (8, 0)"
    using classify_final_a(1) by (simp add: event_l_def)
  have k: "is_op (operation event_l) (letter Load)" "Load \<noteq> Instruction"
    by (simp_all add: event_l_def is_op_def)
  have E: "0 < sint (lines_per_set config_a)" by (simp add: config_a_def)
  from eviction_only_when_full [OF simulate_a E d k] classify_final_a(2)
  show ?thesis by (auto simp: config_a_def)
qed

text \<open>
  C8 (repeated load). In a state that \<open>simulateCache\<close> reaches, with at least one line
  per set and a geometry whose address decomposition is defined, a Load is classified
  (as a hit or as one of the two misses) and processed; the same Load once more is then
  classified as a hit on the same line and adds one hit and nothing else.
\<close>

theorem repeated_load:
  assumes run: "simulateCache evs cfg = Some st"
    and E: "0 < sint (lines_per_set cfg)"
    and geo: "2 \<le> sint (num_sets cfg)" "1 \<le> sint (block_size cfg)"
    and k: "is_op (operation ev) CHR ''L''"
  shows "\<exists>tg sn oc i st1 st2.
     decode (num_sets cfg) (block_size cfg) (address ev) = Some (tg, sn) \<and>
     classify (cache st ! nat (sint sn)) (lines_per_set cfg) tg = Some (oc, i) \<and>
     trace_step cfg st ev = Some st1 \<and>
     classify (cache st1 ! nat (sint sn)) (lines_per_set cfg) tg = Some (HIT, i) \<and>
     trace_step cfg st1 ev = Some st2 \<and>
     counters st2 = add_counters (counters st1) (1, 0, 0)"
proof -
  from decode_defined [OF geo(2) geo(1)] obtain tg sn
    where d: "decode (num_sets cfg) (block_size cfg) (address ev) = Some (tg, sn)" by blast
  have k': "is_op (operation ev) (letter Load)" "Load \<noteq> Instruction" using k by simp_all
  let ?s = "nat (sint sn)" and ?E = "lines_per_set cfg"
  from access_step [OF run E d k'] obtain oc i st1
    where c: "classify (cache st ! ?s) ?E tg = Some (oc, i)"
      and step1: "trace_step cfg st ev = Some st1"
      and hit1: "classify (cache st1 ! ?s) ?E tg = Some (HIT, i)"
      and run1: "simulateCache (evs @ [ev]) cfg = Some st1"
    by blast
  from access_step [OF run1 E d k'] obtain oc2 i2 st2
    where c2: "classify (cache st1 ! ?s) ?E tg = Some (oc2, i2)"
      and step2: "trace_step cfg st1 ev = Some st2"
      and cnt2: "counters st2 = add_counters (counters st1) (table_row Load oc2)"
    by blast
  from c2 hit1 have "oc2 = HIT" by simp
  with cnt2 have "counters st2 = add_counters (counters st1) (1, 0, 0)" by simp
  with d c step1 hit1 step2 show ?thesis by blast
qed

text \<open>
  C8 for a Load that first evicts, in the final state of the sample run.
\<close>

theorem repeated_load_witness:
  "\<exists>st1 st2. trace_step config_a final_a event_l = Some st1 \<and>
     classify (cache st1 ! 0) (lines_per_set config_a) 8 = Some (HIT, 0) \<and>
     trace_step config_a st1 event_l = Some st2 \<and>
     counters st2 = add_counters (counters st1) (1, 0, 0)"
proof -
  have geo: "2 \<le> sint (num_sets config_a)" "1 \<le> sint (block_size config_a)"
    and E: "0 < sint (lines_per_set config_a)" by (simp_all add: config_a_def)
  have k: "is_op (operation event_l) CHR ''L''" by (simp add: event_l_def is_op_def)
  have d: "decode (num_sets config_a) (block_size config_a) (address event_l) = Some (8, 0)"
    using classify_final_a(1) by (simp add: event_l_def)
  from repeated_load [OF simulate_a E geo k] d classify_final_a(2)
  show ?thesis by auto
qed


lemma fold_update_keeps:
  assumes "\<And>l. g (f l) = g l"
  shows "map g (fold (\<lambda>i ls. ls[i := f (ls ! i)]) js ls) = map g ls"
proof (induction js arbitrary: ls)
  case Nil
  show ?case by simp
next
  case (Cons j js)
  have "map g (ls[j := f (ls ! j)]) = map g ls"
  proof (cases "j < length ls")
    case True
    then show ?thesis using assms by (simp add: map_update list_update_same_conv)
  next
    case False
    then show ?thesis by (simp add: list_update_beyond)
  qed
  then show ?case using Cons.IH [of "ls[j := f (ls ! j)]"] by simp
qed

lemma updateLRU_lines_keeps:
  "map valid (updateLRU_lines ls p E) = map valid ls"
  "map tag (updateLRU_lines ls p E) = map tag ls"
  unfolding updateLRU_lines_def by (rule fold_update_keeps; simp)+

lemma map_update_keeps:
  assumes "g x = g (c ! s)"
  shows "map g (c[s := x]) = map g c"
proof (cases "s < length c")
  case True
  then show ?thesis using assms by (simp add: map_update list_update_same_conv)
next
  case False
  then show ?thesis by (simp add: list_update_beyond)
qed

text \<open>
  C9 (a hit does not change the storage). In any state, when a Load, Store or Modify is
  classified as a hit, the event is processed and the valid and tag fields of every
  line of every set are as before; the sets other than the target set are unchanged as
  a whole, so only ranks of the target set can differ.
\<close>

theorem hit_keeps_storage:
  assumes d: "decode (num_sets cfg) (block_size cfg) (address ev) = Some (tg, sn)"
    and k: "is_op (operation ev) (letter k)" "k \<noteq> Instruction"
    and c: "classify (cache st ! nat (sint sn)) (lines_per_set cfg) tg = Some (HIT, i)"
  shows "\<exists>st'. trace_step cfg st ev = Some st' \<and>
     map (map valid) (cache st') = map (map valid) (cache st) \<and>
     map (map tag) (cache st') = map (map tag) (cache st) \<and>
     (\<forall>s. s \<noteq> nat (sint sn) \<longrightarrow> cache st' ! s = cache st ! s)"
proof -
  let ?s = "nat (sint sn)" and ?E = "lines_per_set cfg"
  let ?st' = "operation_body (letter k) st ?E (address ev) (size ev) (verbose cfg) sn tg"
  let ?new = "updateLRU_lines (cache st ! ?s) (lru (cache st ! ?s ! i)) ?E"
  have step: "trace_step cfg st ev = Some ?st'"
    using trace_step_access [OF d k(1)] k(2) by simp
  have "access_lines (letter k) (cache st ! ?s) ?E tg = ?new"
    using c by (simp add: access_lines_def)
  then have ch: "cache ?st' = (cache st)[?s := ?new]"
    using operation_body_cache [of "letter k" st ?E "address ev" "size ev" "verbose cfg" sn tg]
    by simp
  have "map (map valid) (cache ?st') = map (map valid) (cache st)"
    unfolding ch by (rule map_update_keeps) (rule updateLRU_lines_keeps)
  moreover have "map (map tag) (cache ?st') = map (map tag) (cache st)"
    unfolding ch by (rule map_update_keeps) (rule updateLRU_lines_keeps)
  moreover have "cache ?st' ! s = cache st ! s" if "s \<noteq> ?s" for s
    unfolding ch using that by simp
  ultimately show ?thesis using step by blast
qed

lemma classify_final_a_hit:
  "decode (num_sets config_a) (block_size config_a) 0x10 = Some (2, 0)"
  "classify (cache final_a ! 0) (lines_per_set config_a) 2 = Some (HIT, 1)"
  by code_simp+

text \<open>
  C9 for a Store that hits line 1 of set 0 in the final state of the sample run.
\<close>

theorem hit_keeps_storage_witness:
  "\<exists>st'. trace_step config_a final_a event_h = Some st' \<and>
     map (map valid) (cache st') = [[1, 1], [0, 0]] \<and>
     map (map tag) (cache st') = [[6, 2], [0, 0]] \<and>
     cache st' ! 1 = cache final_a ! 1"
proof -
  have d: "decode (num_sets config_a) (block_size config_a) (address event_h) = Some (2, 0)"
    using classify_final_a_hit(1) by (simp add: event_h_def)
  have k: "is_op (operation event_h) (letter Store)" "Store \<noteq> Instruction"
    by (simp_all add: event_h_def is_op_def)
  have c: "classify (cache final_a ! nat (sint (0 :: c_int))) (lines_per_set config_a) 2
             = Some (HIT, 1)"
    using classify_final_a_hit(2) by simp
  from hit_keeps_storage [OF d k c] obtain st'
    where r: "trace_step config_a final_a event_h = Some st'"
      "map (map valid) (cache st') = map (map valid) (cache final_a)"
      "map (map tag) (cache st') = map (map tag) (cache final_a)"
      "\<forall>s. s \<noteq> nat (sint (0 :: c_int)) \<longrightarrow> cache st' ! s = cache final_a ! s"
    by blast
  from r(4) have "cache st' ! 1 = cache final_a ! 1" by simp
  with r(1-3) show ?thesis by (simp add: final_a_def)
qed

lemma decode_tag:
  assumes "decode ns bs a = Some (tg, sn)" and "tag_expr ns bs a = Some T"
  shows "tg = ucast T"
  using assms by (auto simp: decode_def split: option.splits)

lemma ucast_cong_mod:
  fixes T1 T2 :: mem_addr
  assumes "unat T1 mod 2 ^ 32 = unat T2 mod 2 ^ 32"
  shows "(ucast T1 :: c_int) = ucast T2"
proof -
  have "unat (ucast T1 :: c_int) = unat (ucast T2 :: c_int)"
    using assms by (simp add: unsigned_ucast_eq take_bit_eq_mod)
  then show ?thesis by (simp only: word_unat_eq_iff)
qed

text \<open>
  C10 (tags are compared modulo \<open>2 ^ 32\<close>). Let two addresses decode to the same set
  index, and let the 64-bit values of \<open>address >> (b + s)\<close> differ but agree modulo
  \<open>2 ^ 32\<close>. In a state that \<open>simulateCache\<close> reaches, with at least one line per set,
  after a Load, Store or Modify of the first address, a Load, Store or Modify of the
  second address is classified as a hit and counted as one.
\<close>

theorem tags_modulo_2_32:
  assumes run: "simulateCache evs cfg = Some st"
    and E: "0 < sint (lines_per_set cfg)"
    and d1: "decode (num_sets cfg) (block_size cfg) (address ev1) = Some (t1, sn)"
    and d2: "decode (num_sets cfg) (block_size cfg) (address ev2) = Some (t2, sn)"
    and T1: "tag_expr (num_sets cfg) (block_size cfg) (address ev1) = Some T1"
    and T2: "tag_expr (num_sets cfg) (block_size cfg) (address ev2) = Some T2"
    and diff: "T1 \<noteq> T2"
    and cong: "unat T1 mod 2 ^ 32 = unat T2 mod 2 ^ 32"
    and k1: "is_op (operation ev1) (letter k1)" "k1 \<noteq> Instruction"
    and k2: "is_op (operation ev2) (letter k2)" "k2 \<noteq> Instruction"
  shows "\<exists>st1 i st2.
     trace_step cfg st ev1 = Some st1 \<and>
     classify (cache st1 ! nat (sint sn)) (lines_per_set cfg) t2 = Some (HIT, i) \<and>
     trace_step cfg st1 ev2 = Some st2 \<and>
     counters st2 = add_counters (counters st1) (table_row k2 HIT)"
proof -
  have t: "t1 = t2"
    using decode_tag [OF d1 T1] decode_tag [OF d2 T2] ucast_cong_mod [OF cong] by simp
  let ?s = "nat (sint sn)" and ?E = "lines_per_set cfg"
  from access_step [OF run E d1 k1] obtain oc i st1
    where step1: "trace_step cfg st ev1 = Some st1"
      and hit1: "classify (cache st1 ! ?s) ?E t1 = Some (HIT, i)"
      and run1: "simulateCache (evs @ [ev1]) cfg = Some st1"
    by blast
  from access_step [OF run1 E d2 k2] obtain oc2 i2 st2
    where c2: "classify (cache st1 ! ?s) ?E t2 = Some (oc2, i2)"
      and step2: "trace_step cfg st1 ev2 = Some st2"
      and cnt2: "counters st2 = add_counters (counters st1) (table_row k2 oc2)"
    by blast
  from c2 hit1 t have "oc2 = HIT" by simp
  with step1 hit1 step2 cnt2 t show ?thesis by blast
qed

lemma decode_far:
  "decode (num_sets config_a) (block_size config_a) 0x800000040 = Some (8, 0)"
  "tag_expr (num_sets config_a) (block_size config_a) 0x40 = Some 8"
  "tag_expr (num_sets config_a) (block_size config_a) 0x800000040 = Some 0x100000008"
  by code_simp+

text \<open>
  C10 for the addresses \<open>0x40\<close> and \<open>0x800000040\<close>, whose shifted values are \<open>8\<close> and
  \<open>2 ^ 32 + 8\<close>.
\<close>

theorem tags_modulo_2_32_witness:
  "\<exists>st1 st2. trace_step config_a final_a event_l = Some st1 \<and>
     classify (cache st1 ! 0) (lines_per_set config_a) 8 = Some (HIT, 0) \<and>
     trace_step config_a st1 event_far = Some st2 \<and>
     counters st2 = add_counters (counters st1) (1, 0, 0) \<and>
     (0x100000008 :: mem_addr) \<noteq> 8"
proof -
  have E: "0 < sint (lines_per_set config_a)" by (simp add: config_a_def)
  have d1: "decode (num_sets config_a) (block_size config_a) (address event_l) = Some (8, 0)"
    using classify_final_a(1) by (simp add: event_l_def)
  have d2: "decode (num_sets config_a) (block_size config_a) (address event_far) = Some (8, 0)"
    using decode_far(1) by (simp add: event_far_def)
  have T1: "tag_expr (num_sets config_a) (block_size config_a) (address event_l) = Some 8"
    using decode_far(2) by (simp add: event_l_def)
  have T2: "tag_expr (num_sets config_a) (block_size config_a) (address event_far)
              = Some 0x100000008"
    using decode_far(3) by (simp add: event_far_def)
  have diff: "(8 :: mem_addr) \<noteq> 0x100000008" by simp
  have cong: "unat (8 :: mem_addr) mod 2 ^ 32 = unat (0x100000008 :: mem_addr) mod 2 ^ 32"
    by simp
  have k1: "is_op (operation event_l) (letter Load)" "Load \<noteq> Instruction"
    by (simp_all add: event_l_def is_op_def)
  have k2: "is_op (operation event_far) (letter Store)" "Store \<noteq> Instruction"
    by (simp_all add: event_far_def is_op_def)
  from tags_modulo_2_32 [OF simulate_a E d1 d2 T1 T2 diff cong k1 k2]
  obtain st1 i st2 where r: "trace_step config_a final_a event_l = Some st1"
    "classify (cache st1 ! nat (sint (0::c_int))) (lines_per_set config_a) 8 = Some (HIT, i)"
    "trace_step config_a st1 event_far = Some st2"
    "counters st2 = add_counters (counters st1) (table_row Store HIT)" by blast
  have "trace_step config_a final_a event_l = Some final_b" by code_simp
  with r(1) have "st1 = final_b" by simp
  moreover have "classify (cache final_b ! 0) (lines_per_set config_a) 8 = Some (HIT, 0)"
    by code_simp
  ultimately show ?thesis using r by auto
qed

end
